theory Spec2Isabelle
  imports Main "HOL-Library.Char_ord" "HOL-Library.List_Lexorder"
begin

text \<open>
  A shallow embedding of the two Go packages of the repository: \<^verbatim>\<open>toothmetadata\<close>
  (\<^verbatim>\<open>NewFromJSON\<close>, \<^verbatim>\<open>Metadata.JSON\<close>) and \<^verbatim>\<open>internal/contexts\<close> (the directory and path
  operations of \<^verbatim>\<open>Context\<close>).  Go strings are byte strings, here \<^typ>\<open>string\<close>; a Go
  \<^verbatim>\<open>error\<close> return is the left summand of a sum type; a run-time panic is a value of its own.
  The functions of Go's standard library that the source calls are modelled first, each under
  its Go name.
\<close>

section \<open>Go strings: bytes and UTF-8\<close>

abbreviation (input) DQ :: char where "DQ \<equiv> CHR 0x22"
abbreviation (input) BS :: char where "BS \<equiv> CHR 0x5C"

text \<open>The double quote and the backslash.\<close>

text \<open>
  \<^verbatim>\<open>unicode/utf8\<close>: the length of an encoding by its first byte (0: not a first byte), the
  range of the second byte, and \<^verbatim>\<open>utf8.DecodeRuneInString\<close> reduced to the width it returns:
  \<open>rune_len s\<close> is the number of bytes of the well-formed encoding at the head of \<open>s\<close>, and \<open>0\<close>
  where Go returns \<^verbatim>\<open>(RuneError, 1)\<close> (or \<^verbatim>\<open>(RuneError, 0)\<close> for the empty string).
\<close>

definition utf8_need :: "nat \<Rightarrow> nat" where
  "utf8_need b =
     (if b < 0x80 then 1
      else if 0xC2 \<le> b \<and> b \<le> 0xDF then 2
      else if 0xE0 \<le> b \<and> b \<le> 0xEF then 3
      else if 0xF0 \<le> b \<and> b \<le> 0xF4 then 4
      else 0)"

definition second_lo :: "nat \<Rightarrow> nat" where
  "second_lo b = (if b = 0xE0 then 0xA0 else if b = 0xF0 then 0x90 else 0x80)"

definition second_hi :: "nat \<Rightarrow> nat" where
  "second_hi b = (if b = 0xED then 0x9F else if b = 0xF4 then 0x8F else 0xBF)"

definition continuation :: "char \<Rightarrow> bool" where
  "continuation c = (0x80 \<le> (of_char c :: nat) \<and> (of_char c :: nat) \<le> 0xBF)"

definition rune_len :: "string \<Rightarrow> nat" where
  "rune_len s =
     (case s of
        [] \<Rightarrow> 0
      | c # cs \<Rightarrow>
          (let n = utf8_need (of_char c) in
           if n \<le> 1 then n
           else if length cs < n - 1 then 0
           else if second_lo (of_char c) \<le> (of_char (hd cs) :: nat)
                   \<and> (of_char (hd cs) :: nat) \<le> second_hi (of_char c)
                   \<and> list_all continuation (take (n - 2) (tl cs))
                then n else 0))"

text \<open>\<^verbatim>\<open>utf8.ValidString\<close>: every byte belongs to a well-formed encoding.\<close>

fun valid_utf8 :: "string \<Rightarrow> bool" where
  "valid_utf8 [] = True"
| "valid_utf8 (c # cs) =
     (let n = rune_len (c # cs) in n \<noteq> 0 \<and> valid_utf8 (drop (n - 1) cs))"

text \<open>\<^verbatim>\<open>utf8.EncodeRune\<close>: surrogates and values above U+10FFFF become U+FFFD.\<close>

definition utf8_encode :: "nat \<Rightarrow> string" where
  "utf8_encode r =
     (if r < 0x80 then [char_of r]
      else if r < 0x800 then [char_of (0xC0 + r div 64), char_of (0x80 + r mod 64)]
      else if (0xD800 \<le> r \<and> r < 0xE000) \<or> 0x10FFFF < r then [CHR 0xEF, CHR 0xBF, CHR 0xBD]
      else if r < 0x10000 then
        [char_of (0xE0 + r div 4096), char_of (0x80 + r div 64 mod 64), char_of (0x80 + r mod 64)]
      else
        [char_of (0xF0 + r div 262144), char_of (0x80 + r div 4096 mod 64),
         char_of (0x80 + r div 64 mod 64), char_of (0x80 + r mod 64)])"

abbreviation (input) replacement :: string where
  "replacement \<equiv> [CHR 0xEF, CHR 0xBF, CHR 0xBD]"

text \<open>
  \<^verbatim>\<open>strings.ToLower\<close>: a string of ASCII bytes only is lower-cased byte by byte; any other string
  goes through \<^verbatim>\<open>strings.Map(unicode.ToLower, s)\<close>, which needs the Unicode case tables and is a
  parameter here.
\<close>

definition ascii_lower :: "char \<Rightarrow> char" where
  "ascii_lower c =
     (if 65 \<le> (of_char c :: nat) \<and> (of_char c :: nat) \<le> 90 then char_of (of_char c + 32 :: nat)
      else c)"

definition strings_ToLower :: "(string \<Rightarrow> string) \<Rightarrow> string \<Rightarrow> string" where
  "strings_ToLower unicode_lower s =
     (if list_all (\<lambda>c. (of_char c :: nat) < 0x80) s then map ascii_lower s else unicode_lower s)"

section \<open>encoding/json\<close>

text \<open>
  The dynamic values that \<^verbatim>\<open>interface{}\<close> holds in the source: what \<^verbatim>\<open>json.Unmarshal\<close> stores
  (\<^verbatim>\<open>nil\<close>, \<^verbatim>\<open>bool\<close>, \<^verbatim>\<open>float64\<close>, \<^verbatim>\<open>string\<close>, \<^verbatim>\<open>[]interface{}\<close>,
  \<^verbatim>\<open>map[string]interface{}\<close>) and, as \<open>JUnsupported\<close>, any value that \<^verbatim>\<open>json.Marshal\<close> rejects
  (a channel, a function, a NaN).  A \<^verbatim>\<open>float64\<close> is carried by the literal it was read from.
  A Go map is a list of entries with distinct keys; the order of the list stands for the
  order in which \<^verbatim>\<open>range\<close> happens to enumerate the map, which Go leaves unspecified.
\<close>

datatype json =
    JNull | JBool bool | JNumber string | JString string
  | JArray "json list" | JObject "(string \<times> json) list" | JUnsupported

datatype json_error = SyntaxError | UnmarshalTypeError | UnsupportedValueError

text \<open>The text of \<^verbatim>\<open>err.Error()\<close>; the library's wording is reduced to the kind of the error.\<close>

fun json_error_Error :: "json_error \<Rightarrow> string" where
  "json_error_Error SyntaxError = ''invalid JSON input''"
| "json_error_Error UnmarshalTypeError = ''json: cannot unmarshal into Go value''"
| "json_error_Error UnsupportedValueError = ''json: unsupported value''"

text \<open>Indexing a map: an absent key gives the zero value, the \<^verbatim>\<open>nil\<close> interface.\<close>

definition mapindex :: "(string \<times> json) list \<Rightarrow> string \<Rightarrow> json" where
  "mapindex m k = (case map_of m k of None \<Rightarrow> JNull | Some v \<Rightarrow> v)"

text \<open>Assigning \<^verbatim>\<open>m[k] = v\<close>.\<close>

fun mapassign :: "string \<Rightarrow> 'a \<Rightarrow> (string \<times> 'a) list \<Rightarrow> (string \<times> 'a) list" where
  "mapassign k v [] = [(k, v)]"
| "mapassign k v ((k', v') # kvs) =
     (if k' = k then (k, v) # kvs else (k', v') # mapassign k v kvs)"

subsection \<open>Encoding: \<^verbatim>\<open>Encoder.Encode\<close> with \<^verbatim>\<open>SetIndent("", "  ")\<close> and \<^verbatim>\<open>SetEscapeHTML(false)\<close>\<close>

text \<open>
  \<^verbatim>\<open>appendString\<close> of \<^verbatim>\<open>encode.go\<close> with \<^verbatim>\<open>escapeHTML = false\<close>.  Of the ASCII bytes it escapes
  the quote, the backslash and the control characters below \<^verbatim>\<open>0x20\<close>; \<^verbatim>\<open><\<close>, \<^verbatim>\<open>>\<close> and \<^verbatim>\<open>&\<close>
  are in \<^verbatim>\<open>safeSet\<close> and are copied.  A byte that starts no well-formed encoding is written as
  the six characters of the escape of U+FFFD.  U+2028 and U+2029 are written as their six-character
  escapes whatever \<^verbatim>\<open>escapeHTML\<close> is (the library's comment: ``It is valid JSON to escape
  them, so we do so unconditionally'').
\<close>

definition hex_digit :: "nat \<Rightarrow> char" where
  "hex_digit n = (if n < 10 then char_of (48 + n) else char_of (87 + n))"

definition escape_ascii :: "char \<Rightarrow> string" where
  "escape_ascii c =
     (if c = DQ \<or> c = BS then [BS, c]
      else if c = CHR 0x08 then [BS, CHR ''b'']
      else if c = CHR 0x0C then [BS, CHR ''f'']
      else if c = CHR 0x0A then [BS, CHR ''n'']
      else if c = CHR 0x0D then [BS, CHR ''r'']
      else if c = CHR 0x09 then [BS, CHR ''t'']
      else if (of_char c :: nat) < 0x20 then
        [BS, CHR ''u'', CHR ''0'', CHR ''0'', hex_digit (of_char c div 16), hex_digit (of_char c mod 16)]
      else [c])"

fun escape_body :: "string \<Rightarrow> string" where
  "escape_body [] = []"
| "escape_body (c # cs) =
     (if (of_char c :: nat) < 0x80 then escape_ascii c @ escape_body cs
      else
        (let n = rune_len (c # cs) in
         if n = 0 then BS # ''ufffd'' @ escape_body cs
         else if c = CHR 0xE2 \<and> take 2 cs = [CHR 0x80, CHR 0xA8] then
           BS # ''u2028'' @ escape_body (drop 2 cs)
         else if c = CHR 0xE2 \<and> take 2 cs = [CHR 0x80, CHR 0xA9] then
           BS # ''u2029'' @ escape_body (drop 2 cs)
         else c # take (n - 1) cs @ escape_body (drop (n - 1) cs)))"

definition appendString :: "string \<Rightarrow> string" where
  "appendString s = DQ # escape_body s @ [DQ]"

text \<open>The encoder writes the entries of a map sorted by key (byte-wise).\<close>

fun sortKeys :: "json \<Rightarrow> json" where
  "sortKeys (JArray xs) = JArray (map sortKeys xs)"
| "sortKeys (JObject kvs) = JObject (sort_key fst (map (\<lambda>(k, v). (k, sortKeys v)) kvs))"
| "sortKeys v = v"

fun join_with :: "string \<Rightarrow> string list \<Rightarrow> string" where
  "join_with sep [] = []"
| "join_with sep [x] = x"
| "join_with sep (x # y # ys) = x @ sep @ join_with sep (y # ys)"

text \<open>
  The indented text.  The library writes the compact form and passes it through \<^verbatim>\<open>Indent\<close>;
  \<open>render\<close> gives the result of both at once: after \<^verbatim>\<open>{\<close>, \<^verbatim>\<open>[\<close> and \<^verbatim>\<open>,\<close> a new line indented
  by two spaces per level, a space after \<^verbatim>\<open>:\<close>, the closing bracket on a line of its own, and
  \<^verbatim>\<open>{}\<close>, \<^verbatim>\<open>[]\<close> for the empty containers.
\<close>

definition newline :: "nat \<Rightarrow> string" where
  "newline level = CHR 0x0A # replicate (2 * level) CHR '' ''"

fun render :: "nat \<Rightarrow> json \<Rightarrow> string" where
  "render d JNull = ''null''"
| "render d (JBool b) = (if b then ''true'' else ''false'')"
| "render d (JNumber lit) = lit"
| "render d (JString s) = appendString s"
| "render d (JArray xs) =
     (if xs = [] then ''[]''
      else ''['' @ newline (Suc d)
           @ join_with (CHR '','' # newline (Suc d)) (map (render (Suc d)) xs)
           @ newline d @ '']'')"
| "render d (JObject kvs) =
     (if kvs = [] then ''{}''
      else ''{'' @ newline (Suc d)
           @ join_with (CHR '','' # newline (Suc d))
               (map (\<lambda>(k, v). appendString k @ '': '' @ render (Suc d) v) kvs)
           @ newline d @ ''}'')"
| "render d JUnsupported = []"

fun supported :: "json \<Rightarrow> bool" where
  "supported JUnsupported = False"
| "supported (JArray xs) = list_all supported xs"
| "supported (JObject kvs) = list_all (\<lambda>(k, v). supported v) kvs"
| "supported v = True"

text \<open>\<^verbatim>\<open>Encoder.Encode\<close>: the value, then a newline; an error for a value it does not support.\<close>

definition json_Encode :: "json \<Rightarrow> json_error + string" where
  "json_Encode v =
     (if supported v then Inr (render 0 (sortKeys v) @ [CHR 0x0A]) else Inl UnsupportedValueError)"

subsection \<open>Decoding: \<^verbatim>\<open>json.Unmarshal\<close> into a \<^verbatim>\<open>map[string]interface{}\<close>\<close>

text \<open>
  \<^verbatim>\<open>Unmarshal\<close> first checks the whole input with the scanner of \<^verbatim>\<open>scanner.go\<close> (a state machine
  over the bytes with a stack of open containers) and then decodes it.  The model reads the
  input once: it cuts it into tokens, decoding each string literal as \<^verbatim>\<open>unquote\<close> does, and
  runs the tokens through a machine with the same stack.
\<close>

definition isSpace :: "char \<Rightarrow> bool" where
  "isSpace c = (c = CHR '' '' \<or> c = CHR 0x09 \<or> c = CHR 0x0D \<or> c = CHR 0x0A)"

definition isDigit :: "char \<Rightarrow> bool" where
  "isDigit c = (48 \<le> (of_char c :: nat) \<and> (of_char c :: nat) \<le> 57)"

definition hex_value :: "char \<Rightarrow> nat option" where
  "hex_value c =
     (let n = (of_char c :: nat) in
      if 48 \<le> n \<and> n \<le> 57 then Some (n - 48)
      else if 97 \<le> n \<and> n \<le> 102 then Some (n - 87)
      else if 65 \<le> n \<and> n \<le> 70 then Some (n - 55)
      else None)"

text \<open>\<^verbatim>\<open>getu4\<close>, applied behind the backslash and the \<^verbatim>\<open>u\<close>: the value of four hexadecimal digits.\<close>

fun getu4 :: "string \<Rightarrow> nat option" where
  "getu4 (a # b # c # d # rest) =
     (case (hex_value a, hex_value b, hex_value c, hex_value d) of
        (Some w, Some x, Some y, Some z) \<Rightarrow> Some (((w * 16 + x) * 16 + y) * 16 + z)
      | _ \<Rightarrow> None)"
| "getu4 s = None"

definition simple_escape :: "char \<Rightarrow> char option" where
  "simple_escape e =
     (if e = DQ \<or> e = BS \<or> e = CHR ''/'' then Some e
      else if e = CHR ''b'' then Some (CHR 0x08)
      else if e = CHR ''f'' then Some (CHR 0x0C)
      else if e = CHR ''n'' then Some (CHR 0x0A)
      else if e = CHR ''r'' then Some (CHR 0x0D)
      else if e = CHR ''t'' then Some (CHR 0x09)
      else None)"

definition emit :: "string \<Rightarrow> (string \<times> string) option \<Rightarrow> (string \<times> string) option" where
  "emit pre r = map_option (\<lambda>(s, rest). (pre @ s, rest)) r"

text \<open>
  A string literal, read from behind its opening quote: the decoded string and the input behind
  the closing quote, or \<open>None\<close> for a syntax error (no closing quote, a control character, a bad
  escape).  A pair of surrogate escapes gives one rune, a surrogate on its own gives U+FFFD, and
  every byte outside a well-formed encoding is replaced by U+FFFD.
\<close>

fun scan_string :: "string \<Rightarrow> (string \<times> string) option" where
  "scan_string [] = None"
| "scan_string (c # cs) =
     (if c = DQ then Some ([], cs)
      else if c = BS then
        (case cs of
           [] \<Rightarrow> None
         | e # cs1 \<Rightarrow>
             (if e = CHR ''u'' then
                (case getu4 cs1 of
                   None \<Rightarrow> None
                 | Some r \<Rightarrow>
                     (if 0xD800 \<le> r \<and> r < 0xE000 then
                        (case (if take 2 (drop 4 cs1) = [BS, CHR ''u'']
                               then getu4 (drop 6 cs1) else None) of
                           None \<Rightarrow> emit replacement (scan_string (drop 4 cs1))
                         | Some r2 \<Rightarrow>
                             (if r < 0xDC00 \<and> 0xDC00 \<le> r2 \<and> r2 < 0xE000 then
                                emit (utf8_encode (0x10000 + (r - 0xD800) * 1024 + (r2 - 0xDC00)))
                                  (scan_string (drop 10 cs1))
                              else emit replacement (scan_string (drop 4 cs1))))
                      else emit (utf8_encode r) (scan_string (drop 4 cs1))))
              else
                (case simple_escape e of
                   None \<Rightarrow> None
                 | Some x \<Rightarrow> emit [x] (scan_string cs1))))
      else if (of_char c :: nat) < 0x20 then None
      else if (of_char c :: nat) < 0x80 then emit [c] (scan_string cs)
      else
        (let n = rune_len (c # cs) in
         if n = 0 then emit replacement (scan_string cs)
         else emit (c # take (n - 1) cs) (scan_string (drop (n - 1) cs))))"

text \<open>
  A number literal, by the scanner's states (\<^verbatim>\<open>stateNeg\<close>, \<^verbatim>\<open>state0\<close>, \<^verbatim>\<open>state1\<close>, \<^verbatim>\<open>stateDot\<close>,
  \<^verbatim>\<open>stateDot0\<close>, \<^verbatim>\<open>stateE\<close>, \<^verbatim>\<open>stateESign\<close>, \<^verbatim>\<open>stateE0\<close>).
\<close>

datatype nstate = NStart | NNeg | NZero | NInt | NDot | NFrac | NE | NESign | NExp

definition num_step :: "nstate \<Rightarrow> char \<Rightarrow> nstate option" where
  "num_step st c =
     (case st of
        NStart \<Rightarrow> (if c = CHR ''-'' then Some NNeg else if c = CHR ''0'' then Some NZero
                   else if isDigit c then Some NInt else None)
      | NNeg \<Rightarrow> (if c = CHR ''0'' then Some NZero else if isDigit c then Some NInt else None)
      | NZero \<Rightarrow> (if c = CHR ''.'' then Some NDot
                  else if c = CHR ''e'' \<or> c = CHR ''E'' then Some NE else None)
      | NInt \<Rightarrow> (if isDigit c then Some NInt else if c = CHR ''.'' then Some NDot
                 else if c = CHR ''e'' \<or> c = CHR ''E'' then Some NE else None)
      | NDot \<Rightarrow> (if isDigit c then Some NFrac else None)
      | NFrac \<Rightarrow> (if isDigit c then Some NFrac
                  else if c = CHR ''e'' \<or> c = CHR ''E'' then Some NE else None)
      | NE \<Rightarrow> (if c = CHR ''+'' \<or> c = CHR ''-'' then Some NESign
               else if isDigit c then Some NExp else None)
      | NESign \<Rightarrow> (if isDigit c then Some NExp else None)
      | NExp \<Rightarrow> (if isDigit c then Some NExp else None))"

definition num_accepting :: "nstate \<Rightarrow> bool" where
  "num_accepting st = (st = NZero \<or> st = NInt \<or> st = NFrac \<or> st = NExp)"

fun scan_num :: "nstate \<Rightarrow> string \<Rightarrow> string option" where
  "scan_num st [] = (if num_accepting st then Some [] else None)"
| "scan_num st (c # cs) =
     (case num_step st c of
        Some st' \<Rightarrow> scan_num st' cs
      | None \<Rightarrow> if num_accepting st then Some (c # cs) else None)"

definition scan_number :: "string \<Rightarrow> (string \<times> string) option" where
  "scan_number s =
     map_option (\<lambda>rest. (take (length s - length rest) s, rest)) (scan_num NStart s)"

text \<open>
  A number becomes a \<^verbatim>\<open>float64\<close> through \<^verbatim>\<open>strconv.ParseFloat\<close>, which fails when the value
  rounds to an infinity, that is from \<open>2^1024 - 2^970\<close> on.  The parts of a literal: the digits
  before and after the point, the sign of the exponent and its digits.  \<^verbatim>\<open>ParseFloat\<close> stops
  accumulating the exponent once it has reached 10000.
\<close>

definition number_parts :: "string \<Rightarrow> string \<times> string \<times> bool \<times> string" where
  "number_parts lit =
     (let s1 = (if take 1 lit = ''-'' then drop 1 lit else lit);
          ip = takeWhile isDigit s1;
          s2 = dropWhile isDigit s1;
          fp = (if take 1 s2 = ''.'' then takeWhile isDigit (drop 1 s2) else []);
          s3 = (if take 1 s2 = ''.'' then dropWhile isDigit (drop 1 s2) else s2);
          s4 = drop 1 s3;
          eneg = (take 1 s4 = ''-'');
          ed = (if take 1 s4 = ''-'' \<or> take 1 s4 = ''+'' then drop 1 s4 else s4)
      in (ip, fp, eneg, ed))"

definition digits_value :: "string \<Rightarrow> nat" where
  "digits_value ds = foldl (\<lambda>n c. 10 * n + (of_char c - 48)) 0 ds"

definition capped_exponent :: "string \<Rightarrow> nat" where
  "capped_exponent ds = foldl (\<lambda>e c. if e < 10000 then 10 * e + (of_char c - 48) else e) 0 ds"

definition float64_overflow :: "string \<Rightarrow> bool" where
  "float64_overflow lit =
     (case number_parts lit of
        (ip, fp, eneg, ed) \<Rightarrow>
          (let m = digits_value (ip @ fp); e = capped_exponent ed; k = length fp;
               limit = (2 ^ 1024 - 2 ^ 970 :: nat)
           in if eneg then limit * 10 ^ (e + k) \<le> m
              else if k \<le> e then limit \<le> m * 10 ^ (e - k)
              else limit * 10 ^ (k - e) \<le> m))"

datatype token =
    TLBrace | TRBrace | TLBrack | TRBrack | TColon | TComma
  | TString string | TNumber string | TTrue | TFalse | TNull

lemma emit_Some: "emit pre r = Some (s, rest) \<Longrightarrow> \<exists>s'. r = Some (s', rest)"
  by (cases r) (auto simp: emit_def)

lemma scan_string_shorter: "scan_string cs = Some (s, rest) \<Longrightarrow> length rest < length cs"
proof (induction "length cs" arbitrary: cs s rule: less_induct)
  case less
  have IH: "\<And>cs' s'. scan_string cs' = Some (s', rest) \<Longrightarrow> length cs' < length cs
              \<Longrightarrow> length rest < length cs'"
    using less.hyps by blast
  show ?case
  proof (cases cs)
    case Nil
    with less.prems show ?thesis by simp
  next
    case (Cons c cs0)
    show ?thesis
      using less.prems unfolding Cons scan_string.simps Let_def
      by (auto split: if_splits list.splits option.splits dest!: emit_Some dest!: IH simp: Cons)
  qed
qed

lemma scan_num_shorter:
  "scan_num st s = Some rest \<Longrightarrow>
     length rest \<le> length s \<and> (\<not> num_accepting st \<longrightarrow> length rest < length s)"
proof (induction s arbitrary: st)
  case Nil
  then show ?case by (simp split: if_splits)
next
  case (Cons c cs)
  show ?case
  proof (cases "num_step st c")
    case None
    with Cons.prems show ?thesis by (auto split: if_splits)
  next
    case (Some st')
    with Cons.prems have "scan_num st' cs = Some rest" by simp
    from Cons.IH [OF this] show ?thesis by simp
  qed
qed

lemma scan_number_shorter:
  "scan_number s = Some (lit, rest) \<Longrightarrow> length rest < length s"
proof -
  assume "scan_number s = Some (lit, rest)"
  then have "scan_num NStart s = Some rest"
    by (cases "scan_num NStart s") (simp_all add: scan_number_def)
  from scan_num_shorter [OF this] show ?thesis
    by (simp add: num_accepting_def)
qed

text \<open>The token that starts with the byte \<open>c\<close>, which is not white space, and the input behind it.\<close>

definition first_token :: "char \<Rightarrow> string \<Rightarrow> (token \<times> string) option" where
  "first_token c cs =
     (if c = CHR ''{'' then Some (TLBrace, cs)
      else if c = CHR ''}'' then Some (TRBrace, cs)
      else if c = CHR ''['' then Some (TLBrack, cs)
      else if c = CHR '']'' then Some (TRBrack, cs)
      else if c = CHR '':'' then Some (TColon, cs)
      else if c = CHR '','' then Some (TComma, cs)
      else if c = DQ then map_option (\<lambda>(s, rest). (TString s, rest)) (scan_string cs)
      else if c = CHR ''-'' \<or> isDigit c then
        map_option (\<lambda>(lit, rest). (TNumber lit, rest)) (scan_number (c # cs))
      else if take 4 (c # cs) = ''true'' then Some (TTrue, drop 3 cs)
      else if take 5 (c # cs) = ''false'' then Some (TFalse, drop 4 cs)
      else if take 4 (c # cs) = ''null'' then Some (TNull, drop 3 cs)
      else None)"

lemma first_token_shorter: "first_token c cs = Some (t, rest) \<Longrightarrow> length rest \<le> length cs"
  unfolding first_token_def
  apply (simp split: if_splits)
      apply (erule exE, erule conjE, drule scan_string_shorter, simp)
     apply (erule exE, erule conjE, drule scan_number_shorter, simp)
    apply (erule conjE, drule sym [of "drop 3 cs"], simp)
   apply (erule conjE, drule sym [of "drop 4 cs"], simp)
  apply (erule conjE, drule sym [of "drop 3 cs"], simp)
  done

function tokenize :: "string \<Rightarrow> token list option" where
  "tokenize [] = Some []"
| "tokenize (c # cs) =
     (if isSpace c then tokenize cs
      else
        (case first_token c cs of
           None \<Rightarrow> None
         | Some (t, rest) \<Rightarrow> map_option ((#) t) (tokenize rest)))"
  by pat_completeness simp_all
termination
  apply (relation "measure length")
    apply simp_all
  subgoal for c cs x2 x y using first_token_shorter [of c cs x y] by simp
  done

text \<open>
  The machine over the tokens.  A frame is an open container with what it holds so far:
  an array, an object, or an object with the key whose value is being read.
\<close>

datatype frame =
    FArray "json list"
  | FObject "(string \<times> json) list"
  | FField "(string \<times> json) list" string

datatype expect = Value | ValueOrClose | KeyOrClose | Key | Colon | CommaOrClose

datatype pstate = Expect expect "frame list" | Done json

fun deliver :: "json \<Rightarrow> frame list \<Rightarrow> pstate option" where
  "deliver v [] = Some (Done v)"
| "deliver v (FArray xs # st) = Some (Expect CommaOrClose (FArray (xs @ [v]) # st))"
| "deliver v (FField kvs k # st) = Some (Expect CommaOrClose (FObject (mapassign k v kvs) # st))"
| "deliver v (FObject kvs # st) = None"

fun begin_value :: "token \<Rightarrow> frame list \<Rightarrow> pstate option" where
  "begin_value TLBrack st = Some (Expect ValueOrClose (FArray [] # st))"
| "begin_value TLBrace st = Some (Expect KeyOrClose (FObject [] # st))"
| "begin_value (TString s) st = deliver (JString s) st"
| "begin_value (TNumber lit) st = deliver (JNumber lit) st"
| "begin_value TTrue st = deliver (JBool True) st"
| "begin_value TFalse st = deliver (JBool False) st"
| "begin_value TNull st = deliver JNull st"
| "begin_value t st = None"

fun begin_key :: "token \<Rightarrow> frame list \<Rightarrow> pstate option" where
  "begin_key (TString k) (FObject kvs # st) = Some (Expect Colon (FField kvs k # st))"
| "begin_key t st = None"

fun close_container :: "token \<Rightarrow> frame list \<Rightarrow> pstate option" where
  "close_container TRBrack (FArray xs # st) = deliver (JArray xs) st"
| "close_container TRBrace (FObject kvs # st) = deliver (JObject kvs) st"
| "close_container t st = None"

fun step :: "pstate \<Rightarrow> token \<Rightarrow> pstate option" where
  "step (Done v) t = None"
| "step (Expect Value st) t = begin_value t st"
| "step (Expect ValueOrClose st) t =
     (if t = TRBrack then close_container t st else begin_value t st)"
| "step (Expect KeyOrClose st) t =
     (if t = TRBrace then close_container t st else begin_key t st)"
| "step (Expect Key st) t = begin_key t st"
| "step (Expect Colon st) t = (if t = TColon then Some (Expect Value st) else None)"
| "step (Expect CommaOrClose st) t =
     (if t = TComma then
        (case st of
           FArray xs # st' \<Rightarrow> Some (Expect Value st)
         | FObject kvs # st' \<Rightarrow> Some (Expect Key st)
         | _ \<Rightarrow> None)
      else close_container t st)"

fun run :: "pstate \<Rightarrow> token list \<Rightarrow> pstate option" where
  "run s [] = Some s"
| "run s (t # ts) = (case step s t of None \<Rightarrow> None | Some s' \<Rightarrow> run s' ts)"

definition parse :: "token list \<Rightarrow> json option" where
  "parse ts = (case run (Expect Value []) ts of Some (Done v) \<Rightarrow> Some v | _ \<Rightarrow> None)"

text \<open>The scanner refuses more than 10000 open containers (\<^verbatim>\<open>maxNestingDepth\<close>).\<close>

fun depth :: "json \<Rightarrow> nat" where
  "depth (JArray xs) = Suc (foldr max (map depth xs) 0)"
| "depth (JObject kvs) = Suc (foldr max (map (\<lambda>(k, v). depth v) kvs) 0)"
| "depth v = 0"

fun number_out_of_range :: "json \<Rightarrow> bool" where
  "number_out_of_range (JNumber lit) = float64_overflow lit"
| "number_out_of_range (JArray xs) = list_ex number_out_of_range xs"
| "number_out_of_range (JObject kvs) = list_ex (\<lambda>(k, v). number_out_of_range v) kvs"
| "number_out_of_range v = False"

text \<open>
  \<^verbatim>\<open>json.Unmarshal(data, &metadataMap)\<close> for \<^verbatim>\<open>var metadataMap map[string]interface{}\<close>: a syntax
  error for input that is not one JSON value; the entries of a top-level object; the \<^verbatim>\<open>nil\<close>
  map, which reads like the empty one, for a top-level \<^verbatim>\<open>null\<close>; a type error for any other
  top-level value and for a number outside \<^verbatim>\<open>float64\<close>.
\<close>

definition json_Unmarshal :: "string \<Rightarrow> json_error + (string \<times> json) list" where
  "json_Unmarshal data =
     (case tokenize data of
        None \<Rightarrow> Inl SyntaxError
      | Some ts \<Rightarrow>
          (case parse ts of
             None \<Rightarrow> Inl SyntaxError
           | Some v \<Rightarrow>
               if 10000 < depth v then Inl SyntaxError
               else
                 (case v of
                    JObject kvs \<Rightarrow>
                      if number_out_of_range v then Inl UnmarshalTypeError else Inr kvs
                  | JNull \<Rightarrow> Inr []
                  | _ \<Rightarrow> Inl UnmarshalTypeError)))"

section \<open>Package toothmetadata\<close>

text \<open>
  The packages \<^verbatim>\<open>tooth\<close>, \<^verbatim>\<open>utils/version\<close> and \<^verbatim>\<open>utils/version/versionmatch\<close> that the file
  imports are not among the source files.  Their functions are parameters, collected in one
  record together with the Unicode case mapping: \<open>'v\<close> is \<^verbatim>\<open>versionutils.Version\<close>, \<open>'vm\<close> is
  \<^verbatim>\<open>versionmatch.VersionMatch\<close>, and a \<^verbatim>\<open>NewFromString\<close> returns either the text of its error
  or the value.
\<close>

record ('v, 'vm) packages =
  IsValidToothPath :: "string \<Rightarrow> bool"
  version_NewFromString :: "string \<Rightarrow> string + 'v"
  version_String :: "'v \<Rightarrow> string"
  versionmatch_NewFromString :: "string \<Rightarrow> string + 'vm"
  versionmatch_String :: "'vm \<Rightarrow> string"
  unicode_ToLower :: "string \<Rightarrow> string"

record InfoStruct =
  Name :: string
  Description :: string
  Author :: string
  License :: string
  Homepage :: string

record PlacementStruct =
  Source :: string
  Destination :: string

record ('v, 'vm) Metadata =
  ToothPath :: string
  Version :: 'v
  Dependencies :: "string \<rightharpoonup> 'vm list list"
  Information :: InfoStruct
  Placement :: "PlacementStruct list"

text \<open>
  What a call can end in besides its result: an \<^verbatim>\<open>error\<close> value returned to the caller, with
  its message, or a run-time panic (a type assertion \<^verbatim>\<open>x.(T)\<close> on a value that is no \<^verbatim>\<open>T\<close>).
\<close>

datatype failure = Error string | Panic

abbreviation (input) decode_prefix :: string where
  "decode_prefix \<equiv> ''failed to decode JSON into metadata: ''"

text \<open>
  The pattern \<^verbatim>\<open>^[a-zA-Z0-9]\S*$\<close> of lines 93 to 100.  In Go's syntax \<^verbatim>\<open>\S\<close> is the
  complement of \<^verbatim>\<open>[\t\n\f\r ]\<close> and \<^verbatim>\<open>$\<close> is the end of the text, so the pattern matches a
  string as a whole or not at all, and \<^verbatim>\<open>FindString\<close> returns the string when it matches and
  the empty string when it does not.
\<close>

definition isAlnum :: "char \<Rightarrow> bool" where
  "isAlnum c =
     (let n = (of_char c :: nat) in
      (97 \<le> n \<and> n \<le> 122) \<or> (65 \<le> n \<and> n \<le> 90) \<or> (48 \<le> n \<and> n \<le> 57))"

definition isReSpace :: "char \<Rightarrow> bool" where
  "isReSpace c =
     (c = CHR 0x09 \<or> c = CHR 0x0A \<or> c = CHR 0x0C \<or> c = CHR 0x0D \<or> c = CHR '' '')"

definition reg_Match :: "string \<Rightarrow> bool" where
  "reg_Match s = (case s of [] \<Rightarrow> False | c # cs \<Rightarrow> isAlnum c \<and> list_all (\<lambda>x. \<not> isReSpace x) cs)"

definition reg_FindString :: "string \<Rightarrow> string" where
  "reg_FindString s = (if reg_Match s then s else [])"

text \<open>
  The steps of \<^verbatim>\<open>NewFromJSON\<close> on the decoded map, one definition for each field.
  Lines 52 to 56: the tooth path.
\<close>

definition decodeToothPath :: "('v, 'vm) packages \<Rightarrow> (string \<times> json) list \<Rightarrow> failure + string" where
  "decodeToothPath P metadataMap =
     (case mapindex metadataMap ''tooth'' of
        JString tooth \<Rightarrow>
          (let toothPath = strings_ToLower (unicode_ToLower P) tooth in
           if \<not> IsValidToothPath P toothPath then
             Inl (Error (decode_prefix @ ''invalid tooth path: '' @ toothPath))
           else Inr toothPath)
      | _ \<Rightarrow> Inl Panic)"

text \<open>Lines 58 to 63: the version.\<close>

definition decodeVersion :: "('v, 'vm) packages \<Rightarrow> (string \<times> json) list \<Rightarrow> failure + 'v" where
  "decodeVersion P metadataMap =
     (case mapindex metadataMap ''version'' of
        JString versionString \<Rightarrow>
          (case version_NewFromString P versionString of
             Inl err \<Rightarrow> Inl (Error (decode_prefix @ err))
           | Inr version \<Rightarrow> Inr version)
      | _ \<Rightarrow> Inl Panic)"

text \<open>Lines 65 to 79: the dependencies, from the innermost loop outwards.\<close>

fun innerLoop :: "('v, 'vm) packages \<Rightarrow> json list \<Rightarrow> failure + 'vm list" where
  "innerLoop P [] = Inr []"
| "innerLoop P (versionMatch # rest) =
     (case versionMatch of
        JString s \<Rightarrow>
          (case versionmatch_NewFromString P s of
             Inl err \<Rightarrow> Inl (Error (decode_prefix @ err))
           | Inr vm \<Rightarrow>
               (case innerLoop P rest of
                  Inl f \<Rightarrow> Inl f
                | Inr vms \<Rightarrow> Inr (vm # vms)))
      | _ \<Rightarrow> Inl Panic)"

fun outerLoop :: "('v, 'vm) packages \<Rightarrow> json list \<Rightarrow> failure + 'vm list list" where
  "outerLoop P [] = Inr []"
| "outerLoop P (versionMatchInnerList # rest) =
     (case versionMatchInnerList of
        JArray inner \<Rightarrow>
          (case innerLoop P inner of
             Inl f \<Rightarrow> Inl f
           | Inr g \<Rightarrow>
               (case outerLoop P rest of
                  Inl f \<Rightarrow> Inl f
                | Inr gs \<Rightarrow> Inr (g # gs)))
      | _ \<Rightarrow> Inl Panic)"

fun dependenciesLoop ::
  "('v, 'vm) packages \<Rightarrow> (string \<times> json) list \<Rightarrow> (string \<rightharpoonup> 'vm list list)
     \<Rightarrow> failure + (string \<rightharpoonup> 'vm list list)" where
  "dependenciesLoop P [] deps = Inr deps"
| "dependenciesLoop P ((toothPath, versionMatchOuterList) # rest) deps =
     (case versionMatchOuterList of
        JArray outer \<Rightarrow>
          (case outerLoop P outer of
             Inl f \<Rightarrow> Inl f
           | Inr groups \<Rightarrow> dependenciesLoop P rest (deps(toothPath \<mapsto> groups)))
      | _ \<Rightarrow> Inl Panic)"

definition decodeDependencies ::
  "('v, 'vm) packages \<Rightarrow> (string \<times> json) list \<Rightarrow> failure + (string \<rightharpoonup> 'vm list list)" where
  "decodeDependencies P metadataMap =
     (case mapindex metadataMap ''dependencies'' of
        JObject dependencies \<Rightarrow> dependenciesLoop P dependencies Map.empty
      | _ \<Rightarrow> Inl Panic)"

text \<open>Lines 81 to 85: \<^verbatim>\<open>metadataMap["information"].(map[string]interface{})[k].(string)\<close>.\<close>

definition informationField :: "(string \<times> json) list \<Rightarrow> string \<Rightarrow> failure + string" where
  "informationField metadataMap k =
     (case mapindex metadataMap ''information'' of
        JObject info \<Rightarrow> (case mapindex info k of JString s \<Rightarrow> Inr s | _ \<Rightarrow> Inl Panic)
      | _ \<Rightarrow> Inl Panic)"

definition decodeInformation :: "(string \<times> json) list \<Rightarrow> failure + InfoStruct" where
  "decodeInformation metadataMap =
     (case informationField metadataMap ''name'' of Inl f \<Rightarrow> Inl f | Inr name \<Rightarrow>
      case informationField metadataMap ''description'' of Inl f \<Rightarrow> Inl f | Inr description \<Rightarrow>
      case informationField metadataMap ''author'' of Inl f \<Rightarrow> Inl f | Inr author \<Rightarrow>
      case informationField metadataMap ''license'' of Inl f \<Rightarrow> Inl f | Inr license \<Rightarrow>
      case informationField metadataMap ''homepage'' of Inl f \<Rightarrow> Inl f | Inr homepage \<Rightarrow>
        Inr \<lparr>Name = name, Description = description, Author = author,
             License = license, Homepage = homepage\<rparr>)"

text \<open>Lines 87 to 104: the placements.\<close>

fun placementLoop :: "json list \<Rightarrow> failure + PlacementStruct list" where
  "placementLoop [] = Inr []"
| "placementLoop (placement # rest) =
     (case placement of
        JObject pm \<Rightarrow>
          (case mapindex pm ''source'' of
             JString source \<Rightarrow>
               (case mapindex pm ''destination'' of
                  JString destination \<Rightarrow>
                    if reg_FindString source \<noteq> source then
                      Inl (Error (decode_prefix @ ''invalid source: '' @ source))
                    else if reg_FindString destination \<noteq> destination then
                      Inl (Error (decode_prefix @ ''invalid destination: '' @ destination))
                    else
                      (case placementLoop rest of
                         Inl f \<Rightarrow> Inl f
                       | Inr ps \<Rightarrow> Inr (\<lparr>Source = source, Destination = destination\<rparr> # ps))
                | _ \<Rightarrow> Inl Panic)
           | _ \<Rightarrow> Inl Panic)
      | _ \<Rightarrow> Inl Panic)"

definition decodePlacement :: "(string \<times> json) list \<Rightarrow> failure + PlacementStruct list" where
  "decodePlacement metadataMap =
     (case mapindex metadataMap ''placement'' of
        JArray placements \<Rightarrow> placementLoop placements
      | _ \<Rightarrow> Inl Panic)"

text \<open>Lines 49 to 106 as a whole: the first step that fails ends the call.\<close>

definition fromMap ::
  "('v, 'vm) packages \<Rightarrow> (string \<times> json) list \<Rightarrow> failure + ('v, 'vm) Metadata" where
  "fromMap P metadataMap =
     (case decodeToothPath P metadataMap of Inl f \<Rightarrow> Inl f | Inr toothPath \<Rightarrow>
      case decodeVersion P metadataMap of Inl f \<Rightarrow> Inl f | Inr version \<Rightarrow>
      case decodeDependencies P metadataMap of Inl f \<Rightarrow> Inl f | Inr deps \<Rightarrow>
      case decodeInformation metadataMap of Inl f \<Rightarrow> Inl f | Inr information \<Rightarrow>
      case decodePlacement metadataMap of Inl f \<Rightarrow> Inl f | Inr placement \<Rightarrow>
        Inr \<lparr>ToothPath = toothPath, Version = version, Dependencies = deps,
             Information = information, Placement = placement\<rparr>)"

text \<open>\<^verbatim>\<open>func NewFromJSON(jsonData []byte) (Metadata, error)\<close>.\<close>

definition NewFromJSON ::
  "('v, 'vm) packages \<Rightarrow> string \<Rightarrow> failure + ('v, 'vm) Metadata" where
  "NewFromJSON P jsonData =
     (case json_Unmarshal jsonData of
        Inl err \<Rightarrow> Inl (Error (decode_prefix @ json_error_Error err))
      | Inr metadataMap \<Rightarrow> fromMap P metadataMap)"

text \<open>
  \<^verbatim>\<open>func (metadata Metadata) JSON() ([]byte, error)\<close>.  Lines 111 to 142 build the map; the
  loop of line 118 ranges over \<^verbatim>\<open>metadata.Dependencies\<close> in an unspecified order, which does not
  show in the map it fills; the keys are taken in ascending order here.
\<close>

definition dependenciesMap ::
  "('v, 'vm) packages \<Rightarrow> (string \<rightharpoonup> 'vm list list) \<Rightarrow> (string \<times> json) list" where
  "dependenciesMap P deps =
     map (\<lambda>toothPath.
            (toothPath,
             JArray (map (\<lambda>versionMatchInnerList.
                            JArray (map (\<lambda>versionMatch. JString (versionmatch_String P versionMatch))
                                      versionMatchInnerList))
                       (the (deps toothPath)))))
       (sorted_list_of_set (dom deps))"

definition toMap :: "('v, 'vm) packages \<Rightarrow> ('v, 'vm) Metadata \<Rightarrow> (string \<times> json) list" where
  "toMap P metadata =
     [(''tooth'', JString (ToothPath metadata)),
      (''version'', JString (version_String P (Version metadata))),
      (''dependencies'', JObject (dependenciesMap P (Dependencies metadata))),
      (''information'',
         JObject
           [(''name'', JString (Name (Information metadata))),
            (''description'', JString (Description (Information metadata))),
            (''author'', JString (Author (Information metadata))),
            (''license'', JString (License (Information metadata))),
            (''homepage'', JString (Homepage (Information metadata)))]),
      (''placement'',
         JArray (map (\<lambda>placement.
                        JObject [(''source'', JString (Source placement)),
                                 (''destination'', JString (Destination placement))])
                   (Placement metadata)))]"

definition JSON :: "('v, 'vm) packages \<Rightarrow> ('v, 'vm) Metadata \<Rightarrow> failure + string" where
  "JSON P metadata =
     (case json_Encode (JObject (toMap P metadata)) of
        Inl err \<Rightarrow> Inl (Error (''failed to encode metadata into JSON: '' @ json_error_Error err))
      | Inr bytes \<Rightarrow> Inr bytes)"

text \<open>
  An instance of the parameters, for running the functions on examples only: a version and a
  version match are kept as their text, a tooth path is made of lower-case letters, digits and
  \<^verbatim>\<open>- _ . /\<close>.
\<close>

definition example_packages :: "(string, string) packages" where
  "example_packages =
     \<lparr>IsValidToothPath =
        (\<lambda>s. s \<noteq> [] \<and>
             list_all (\<lambda>c. (97 \<le> (of_char c :: nat) \<and> (of_char c :: nat) \<le> 122)
                          \<or> isDigit c \<or> c \<in> set ''-_./'') s),
      version_NewFromString =
        (\<lambda>s. if s \<noteq> [] \<and> list_all (\<lambda>c. isDigit c \<or> c = CHR ''.'') s then Inr s
             else Inl (''invalid version: '' @ s)),
      version_String = (\<lambda>v. v),
      versionmatch_NewFromString =
        (\<lambda>s. if s \<noteq> [] \<and> list_all (\<lambda>c. isDigit c \<or> c \<in> set ''.<>='') s then Inr s
             else Inl (''invalid version match: '' @ s)),
      versionmatch_String = (\<lambda>m. m),
      unicode_ToLower = (\<lambda>s. s)\<rparr>"

text \<open>Documents for the examples, and the maps they decode to.\<close>

definition doc_ok :: string where
  "doc_ok = ''{\"tooth\": \"com.Example/Pkg\", \"version\": \"1.0.0\",
  \"dependencies\": {\"Dep/UPPER\": [[\">=1.0.0\", \"<2.0.0\"], [\"3.0.0\"]]},
  \"information\": {\"name\": \"n\", \"description\": \"d\", \"author\": \"a\",
    \"license\": \"MIT\", \"homepage\": \"h\"},
  \"placement\": [{\"source\": \"assets/file.txt\", \"destination\": \"plugins/file.txt\"}]}''"

definition map_ok :: "(string \<times> json) list" where
  "map_ok =
     [(''tooth'', JString ''com.Example/Pkg''), (''version'', JString ''1.0.0''),
      (''dependencies'',
         JObject [(''Dep/UPPER'',
                   JArray [JArray [JString ''>=1.0.0'', JString ''<2.0.0''],
                           JArray [JString ''3.0.0'']])]),
      (''information'',
         JObject [(''name'', JString ''n''), (''description'', JString ''d''),
                  (''author'', JString ''a''), (''license'', JString ''MIT''),
                  (''homepage'', JString ''h'')]),
      (''placement'',
         JArray [JObject [(''source'', JString ''assets/file.txt''),
                          (''destination'', JString ''plugins/file.txt'')]])]"

definition metadata_ok :: "(string, string) Metadata" where
  "metadata_ok =
     \<lparr>ToothPath = ''com.example/pkg'', Version = ''1.0.0'',
      Dependencies = [''Dep/UPPER'' \<mapsto> [[''>=1.0.0'', ''<2.0.0''], [''3.0.0'']]],
      Information = \<lparr>Name = ''n'', Description = ''d'', Author = ''a'', License = ''MIT'',
                      Homepage = ''h''\<rparr>,
      Placement = [\<lparr>Source = ''assets/file.txt'', Destination = ''plugins/file.txt''\<rparr>]\<rparr>"

text \<open>The same manifest without \<^verbatim>\<open>information.name\<close>.\<close>

definition doc_no_name :: string where
  "doc_no_name = ''{\"tooth\": \"a/b\", \"version\": \"1.0.0\", \"dependencies\": {},
  \"information\": {\"description\": \"d\", \"author\": \"a\", \"license\": \"MIT\",
    \"homepage\": \"h\"},
  \"placement\": []}''"

definition map_no_name :: "(string \<times> json) list" where
  "map_no_name =
     [(''tooth'', JString ''a/b''), (''version'', JString ''1.0.0''),
      (''dependencies'', JObject []),
      (''information'',
         JObject [(''description'', JString ''d''), (''author'', JString ''a''),
                  (''license'', JString ''MIT''), (''homepage'', JString ''h'')]),
      (''placement'', JArray [])]"

text \<open>A manifest whose placement has empty tokens, and one whose source has a space.\<close>

definition doc_placement :: "string \<Rightarrow> string" where
  "doc_placement source = ''{\"tooth\": \"a/b\", \"version\": \"1.0.0\", \"dependencies\": {},
  \"information\": {\"name\": \"n\", \"description\": \"d\", \"author\": \"a\",
    \"license\": \"MIT\", \"homepage\": \"h\"},
  \"placement\": [{\"source\": \"'' @ source @ ''\", \"destination\": \"\"}]}''"

definition map_placement :: "string \<Rightarrow> (string \<times> json) list" where
  "map_placement source =
     [(''tooth'', JString ''a/b''), (''version'', JString ''1.0.0''),
      (''dependencies'', JObject []),
      (''information'',
         JObject [(''name'', JString ''n''), (''description'', JString ''d''),
                  (''author'', JString ''a''), (''license'', JString ''MIT''),
                  (''homepage'', JString ''h'')]),
      (''placement'',
         JArray [JObject [(''source'', JString source), (''destination'', JString '''')]])]"


text \<open>
  A manifest with two dependencies, neither under a key that is a tooth path: one key has
  upper-case letters, the other one spaces and an exclamation mark.
\<close>

definition doc_two_deps :: string where
  "doc_two_deps = ''{\"tooth\": \"a/b\", \"version\": \"1.0.0\",
  \"dependencies\": {\"Dep/UPPER\": [[\">=1.0.0\", \"<2.0.0\"], [\"3.0.0\"]],
                     \"not a path!\": [[\"1.2.3\"]]},
  \"information\": {\"name\": \"n\", \"description\": \"d\", \"author\": \"a\",
    \"license\": \"MIT\", \"homepage\": \"h\"},
  \"placement\": []}''"

definition deps_two :: "(string \<times> json) list" where
  "deps_two =
     [(''Dep/UPPER'', JArray [JArray [JString ''>=1.0.0'', JString ''<2.0.0''],
                              JArray [JString ''3.0.0'']]),
      (''not a path!'', JArray [JArray [JString ''1.2.3'']])]"

definition map_two_deps :: "(string \<times> json) list" where
  "map_two_deps =
     [(''tooth'', JString ''a/b''), (''version'', JString ''1.0.0''),
      (''dependencies'', JObject deps_two),
      (''information'',
         JObject [(''name'', JString ''n''), (''description'', JString ''d''),
                  (''author'', JString ''a''), (''license'', JString ''MIT''),
                  (''homepage'', JString ''h'')]),
      (''placement'', JArray [])]"

text \<open>
  A manifest whose name is the line separator U+2028 and whose homepage is the paragraph
  separator U+2029 (written as escapes; decoded, they are the bytes E2 80 A8 and E2 80 A9), and
  whose description holds \<^verbatim>\<open><\<close>, \<^verbatim>\<open>>\<close> and \<^verbatim>\<open>&\<close>; and the text that \<^verbatim>\<open>Metadata.JSON\<close> writes for
  it, line by line.
\<close>

definition doc_separator :: string where
  "doc_separator = ''{\"tooth\": \"a/b\", \"version\": \"1.0.0\", \"dependencies\": {},
  \"information\": {\"name\": \"'' @ [BS] @ ''u2028\", \"description\": \"<a>&\", \"author\": \"a\",
    \"license\": \"MIT\", \"homepage\": \"'' @ [BS] @ ''u2029\"},
  \"placement\": []}''"

definition metadata_separator :: "(string, string) Metadata" where
  "metadata_separator =
     \<lparr>ToothPath = ''a/b'', Version = ''1.0.0'', Dependencies = Map.empty,
      Information = \<lparr>Name = [CHR 0xE2, CHR 0x80, CHR 0xA8], Description = ''<a>&'',
                      Author = ''a'', License = ''MIT'',
                      Homepage = [CHR 0xE2, CHR 0x80, CHR 0xA9]\<rparr>,
      Placement = []\<rparr>"

definition encoded_separator :: string where
  "encoded_separator =
     ''{'' @ [CHR 0x0A]
     @ ''  \"dependencies\": {},'' @ [CHR 0x0A]
     @ ''  \"information\": {'' @ [CHR 0x0A]
     @ ''    \"author\": \"a\",'' @ [CHR 0x0A]
     @ ''    \"description\": \"<a>&\",'' @ [CHR 0x0A]
     @ ''    \"homepage\": \"'' @ [BS] @ ''u2029\",'' @ [CHR 0x0A]
     @ ''    \"license\": \"MIT\",'' @ [CHR 0x0A]
     @ ''    \"name\": \"'' @ [BS] @ ''u2028\"'' @ [CHR 0x0A]
     @ ''  },'' @ [CHR 0x0A]
     @ ''  \"placement\": [],'' @ [CHR 0x0A]
     @ ''  \"tooth\": \"a/b\",'' @ [CHR 0x0A]
     @ ''  \"version\": \"1.0.0\"'' @ [CHR 0x0A]
     @ ''}'' @ [CHR 0x0A]"

section \<open>Dependency constraints: a disjunction of conjunctions of version matches\<close>

text \<open>
  \<^verbatim>\<open>Metadata.Dependencies\<close> has the Go type
  \<^verbatim>\<open>map[string]([][]versionmatch.VersionMatch)\<close>: per dependency an ordered outer list of
  groups, each an ordered inner list of matches.  The function that evaluates such an entry
  against a candidate version is not among the source files of the repository, and neither is
  the package \<^verbatim>\<open>versionmatch\<close>; the atomic predicate \<open>Matches\<close> is therefore a parameter.
\<close>

text \<open>Modelled from the spec: a group is satisfied when the candidate satisfies all of its
  matches (``AND within the group''); the loop leaves at the first match that fails.\<close>

fun satisfiesGroup :: "('vm \<Rightarrow> 'v \<Rightarrow> bool) \<Rightarrow> 'v \<Rightarrow> 'vm list \<Rightarrow> bool" where
  "satisfiesGroup Matches v [] = True"
| "satisfiesGroup Matches v (m # ms) =
     (if Matches m v then satisfiesGroup Matches v ms else False)"

text \<open>Modelled from the spec: an entry is satisfied when at least one outer group is
  (``short-circuits on first satisfying group'').\<close>

fun satisfiesEntry :: "('vm \<Rightarrow> 'v \<Rightarrow> bool) \<Rightarrow> 'v \<Rightarrow> 'vm list list \<Rightarrow> bool" where
  "satisfiesEntry Matches v [] = False"
| "satisfiesEntry Matches v (g # gs) =
     (if satisfiesGroup Matches v g then True else satisfiesEntry Matches v gs)"

text \<open>Modelled from the spec: \<open>Satisfies(DependencyConstraintSet, path, Version)\<close> ``returns true
  iff path is present in the set and the candidate Version satisfies at least one outer group
  \<dots> returns false if path absent''.\<close>

definition Satisfies ::
  "('vm \<Rightarrow> 'v \<Rightarrow> bool) \<Rightarrow> (string \<rightharpoonup> 'vm list list) \<Rightarrow> string \<Rightarrow> 'v \<Rightarrow> bool" where
  "Satisfies Matches deps path v =
     (case deps path of None \<Rightarrow> False | Some entry \<Rightarrow> satisfiesEntry Matches v entry)"

text \<open>Modelled from the spec: the three shapes of match that the spec's example uses
  (\<^verbatim>\<open>"3.0.0"\<close>, \<^verbatim>\<open>">=1.0.0"\<close>, \<^verbatim>\<open>"<2.0.0"\<close>) over versions major.minor.patch compared
  lexicographically.  Only the worked example below uses it.\<close>

type_synonym semver = "nat \<times> nat \<times> nat"

datatype example_match = Exactly semver | AtLeast semver | Below semver

fun semver_less :: "semver \<Rightarrow> semver \<Rightarrow> bool" where
  "semver_less (a, b, c) (a', b', c') =
     (a < a' \<or> (a = a' \<and> (b < b' \<or> (b = b' \<and> c < c'))))"

fun example_Matches :: "example_match \<Rightarrow> semver \<Rightarrow> bool" where
  "example_Matches (Exactly w) v = (v = w)"
| "example_Matches (AtLeast w) v = (\<not> semver_less v w)"
| "example_Matches (Below w) v = semver_less v w"

section \<open>Decoding a manifest: what the steps of \<^verbatim>\<open>NewFromJSON\<close> establish\<close>

lemmas json_eval =
  json_Unmarshal_def first_token_def isSpace_def parse_def isDigit_def simple_escape_def emit_def hex_value_def
  utf8_encode_def scan_number_def num_step_def num_accepting_def rune_len_def utf8_need_def
  second_lo_def second_hi_def continuation_def char_of_eq_iff

lemmas metadata_eval =
  fromMap_def decodeToothPath_def decodeVersion_def decodeDependencies_def
  decodeInformation_def informationField_def decodePlacement_def mapindex_def
  strings_ToLower_def ascii_lower_def reg_FindString_def reg_Match_def isAlnum_def isReSpace_def
  isDigit_def char_of_eq_iff

lemma fromMap_Inr:
  "fromMap P m = Inr md \<longleftrightarrow>
     (\<exists>tp v d i pl.
        decodeToothPath P m = Inr tp \<and> decodeVersion P m = Inr v
        \<and> decodeDependencies P m = Inr d \<and> decodeInformation m = Inr i
        \<and> decodePlacement m = Inr pl
        \<and> md = \<lparr>ToothPath = tp, Version = v, Dependencies = d, Information = i,
                  Placement = pl\<rparr>)"
  by (auto simp: fromMap_def split: sum.splits)

lemma NewFromJSON_Inr:
  "NewFromJSON P data = Inr md \<longleftrightarrow> (\<exists>m. json_Unmarshal data = Inr m \<and> fromMap P m = Inr md)"
  by (auto simp: NewFromJSON_def split: sum.splits)

lemma NewFromJSON_decoded: "json_Unmarshal data = Inr m \<Longrightarrow> NewFromJSON P data = fromMap P m"
  by (simp add: NewFromJSON_def)

lemma decodeToothPath_Inr:
  "decodeToothPath P m = Inr tp \<longleftrightarrow>
     (\<exists>tooth. mapindex m ''tooth'' = JString tooth
        \<and> tp = strings_ToLower (unicode_ToLower P) tooth \<and> IsValidToothPath P tp)"
  by (auto simp: decodeToothPath_def Let_def split: json.splits)

lemma informationField_failure: "informationField m k = Inl f \<Longrightarrow> f = Panic"
  by (auto simp: informationField_def split: json.splits)

lemma informationField_absent:
  "mapindex m ''information'' = JObject info \<Longrightarrow> map_of info k = None
     \<Longrightarrow> informationField m k = Inl Panic"
  by (simp add: informationField_def mapindex_def)

lemma decodeInformation_failure: "decodeInformation m = Inl f \<Longrightarrow> f = Panic"
  by (auto simp: decodeInformation_def split: sum.splits dest: informationField_failure)

lemma decodeInformation_needs_all:
  assumes "k \<in> {''name'', ''description'', ''author'', ''license'', ''homepage''}"
    and "informationField m k = Inl Panic"
  shows "decodeInformation m = Inl Panic"
proof -
  have "\<And>i. decodeInformation m \<noteq> Inr i"
    using assms by (auto simp: decodeInformation_def split: sum.splits)
  then show ?thesis
    using decodeInformation_failure [of m] by (cases "decodeInformation m") auto
qed

lemma dependenciesLoop_dom:
  "dependenciesLoop P kvs acc = Inr d \<Longrightarrow> dom d = dom acc \<union> fst ` set kvs"
proof (induction kvs arbitrary: acc)
  case Nil
  then show ?case by simp
next
  case (Cons kv kvs)
  obtain k v where kv: "kv = (k, v)" by (cases kv)
  from Cons.prems obtain outer groups where
    "v = JArray outer" "outerLoop P outer = Inr groups"
    "dependenciesLoop P kvs (acc(k \<mapsto> groups)) = Inr d"
    by (auto simp: kv split: json.splits sum.splits)
  from Cons.IH [OF this(3)] show ?case by (auto simp: kv)
qed

lemma map_of_mapassign: "map_of (mapassign k v m) = (map_of m)(k \<mapsto> v)"
  by (induction m) (auto simp: fun_eq_iff)

lemma mapindex_mapassign:
  "mapindex (mapassign k v m) k' = (if k' = k then v else mapindex m k')"
  by (simp add: mapindex_def map_of_mapassign)

subsection \<open>The example documents, decoded\<close>

lemma unmarshal_doc_ok: "json_Unmarshal doc_ok = Inr map_ok"
  by (simp add: doc_ok_def map_ok_def json_eval)

lemma unmarshal_doc_no_name: "json_Unmarshal doc_no_name = Inr map_no_name"
  by (simp add: doc_no_name_def map_no_name_def json_eval)

lemma unmarshal_doc_placement_empty:
  "json_Unmarshal (doc_placement []) = Inr (map_placement [])"
  by (simp add: doc_placement_def map_placement_def json_eval)

lemma unmarshal_doc_placement_space:
  "json_Unmarshal (doc_placement ''a b'') = Inr (map_placement ''a b'')"
  by (simp add: doc_placement_def map_placement_def json_eval)

lemma unmarshal_doc_placement_leading:
  "json_Unmarshal (doc_placement '' assets'') = Inr (map_placement '' assets'')"
  by (simp add: doc_placement_def map_placement_def json_eval)

lemma unmarshal_doc_placement_file:
  "json_Unmarshal (doc_placement ''assets/file.txt'') = Inr (map_placement ''assets/file.txt'')"
  by (simp add: doc_placement_def map_placement_def json_eval)

lemma fromMap_map_ok: "fromMap example_packages map_ok = Inr metadata_ok"
  by (simp add: map_ok_def metadata_ok_def example_packages_def metadata_eval)

lemma example_steps_no_name:
  "decodeToothPath example_packages map_no_name = Inr ''a/b''"
  "decodeVersion example_packages map_no_name = Inr ''1.0.0''"
  "decodeDependencies example_packages map_no_name = Inr Map.empty"
  by (simp_all add: map_no_name_def example_packages_def metadata_eval)


lemma unmarshal_doc_two_deps: "json_Unmarshal doc_two_deps = Inr map_two_deps"
  by (simp add: doc_two_deps_def map_two_deps_def deps_two_def json_eval)

lemma example_steps_two_deps:
  "decodeToothPath example_packages map_two_deps = Inr ''a/b''"
  "decodeVersion example_packages map_two_deps = Inr ''1.0.0''"
  "decodeInformation map_two_deps
     = Inr \<lparr>Name = ''n'', Description = ''d'', Author = ''a'', License = ''MIT'',
            Homepage = ''h''\<rparr>"
  "decodePlacement map_two_deps = Inr []"
  by (simp_all add: map_two_deps_def example_packages_def metadata_eval)

subsection \<open>Dependencies whose values are valid are accepted under any keys\<close>

lemma innerLoop_accepts:
  assumes "\<forall>s\<in>set g. \<exists>vm. versionmatch_NewFromString P s = Inr vm"
  shows "\<exists>vms. innerLoop P (map JString g) = Inr vms
           \<and> list_all2 (\<lambda>s vm. versionmatch_NewFromString P s = Inr vm) g vms"
  using assms
proof (induction g)
  case Nil
  then show ?case by simp
next
  case (Cons s g)
  from Cons.prems obtain vm where vm: "versionmatch_NewFromString P s = Inr vm" by auto
  from Cons obtain vms where "innerLoop P (map JString g) = Inr vms"
    "list_all2 (\<lambda>s vm. versionmatch_NewFromString P s = Inr vm) g vms" by auto
  with vm show ?case by simp
qed

lemma outerLoop_accepts:
  assumes "\<forall>g\<in>set groups. \<forall>s\<in>set g. \<exists>vm. versionmatch_NewFromString P s = Inr vm"
  shows "\<exists>gs. outerLoop P (map (\<lambda>g. JArray (map JString g)) groups) = Inr gs
           \<and> list_all2 (list_all2 (\<lambda>s vm. versionmatch_NewFromString P s = Inr vm)) groups gs"
  using assms
proof (induction groups)
  case Nil
  then show ?case by simp
next
  case (Cons g groups)
  from Cons.prems have "\<forall>s\<in>set g. \<exists>vm. versionmatch_NewFromString P s = Inr vm" by simp
  from innerLoop_accepts [OF this] obtain vms where
    vms: "innerLoop P (map JString g) = Inr vms"
    "list_all2 (\<lambda>s vm. versionmatch_NewFromString P s = Inr vm) g vms" by blast
  from Cons obtain gs where "outerLoop P (map (\<lambda>g. JArray (map JString g)) groups) = Inr gs"
    "list_all2 (list_all2 (\<lambda>s vm. versionmatch_NewFromString P s = Inr vm)) groups gs" by auto
  with vms show ?case by simp
qed

text \<open>
  The loop over the dependencies never looks at a key: when every value is accepted by the
  loop of line 69, every entry is stored under its key, a later entry replacing an earlier one
  of the same key.
\<close>

lemma dependenciesLoop_accepts:
  assumes "\<forall>(k, v)\<in>set deps. \<exists>outer gs. v = JArray outer \<and> outerLoop P outer = Inr gs"
  shows "\<exists>d. dependenciesLoop P deps acc = Inr d
           \<and> dom d = dom acc \<union> fst ` set deps
           \<and> (\<forall>k. k \<notin> fst ` set deps \<longrightarrow> d k = acc k)
           \<and> (\<forall>k outer. map_of (rev deps) k = Some (JArray outer) \<longrightarrow>
                  (\<exists>gs. d k = Some gs \<and> outerLoop P outer = Inr gs))"
  using assms
proof (induction deps arbitrary: acc)
  case Nil
  then show ?case by simp
next
  case (Cons kv deps)
  obtain k0 v0 where kv: "kv = (k0, v0)" by (cases kv)
  from Cons.prems obtain outer0 g0 where
    v0: "v0 = JArray outer0" and o0: "outerLoop P outer0 = Inr g0"
    by (auto simp: kv)
  from Cons.prems
  have rest: "\<forall>(k, v)\<in>set deps. \<exists>outer gs. v = JArray outer \<and> outerLoop P outer = Inr gs"
    by simp
  from Cons.IH [OF rest, of "acc(k0 \<mapsto> g0)"] obtain d where
    d: "dependenciesLoop P deps (acc(k0 \<mapsto> g0)) = Inr d"
    and dom_d: "dom d = dom (acc(k0 \<mapsto> g0)) \<union> fst ` set deps"
    and old: "\<And>k. k \<notin> fst ` set deps \<Longrightarrow> d k = (acc(k0 \<mapsto> g0)) k"
    and new: "\<And>k outer. map_of (rev deps) k = Some (JArray outer) \<Longrightarrow>
                  \<exists>gs. d k = Some gs \<and> outerLoop P outer = Inr gs"
    by blast
  have run: "dependenciesLoop P (kv # deps) acc = Inr d"
    by (simp add: kv v0 o0 d)
  have dom': "dom d = dom acc \<union> fst ` set (kv # deps)"
    using dom_d by (auto simp: kv)
  have old': "d k = acc k" if "k \<notin> fst ` set (kv # deps)" for k
    using old [of k] that by (auto simp: kv)
  have new': "\<exists>gs. d k = Some gs \<and> outerLoop P outer = Inr gs"
    if look: "map_of (rev (kv # deps)) k = Some (JArray outer)" for k outer
  proof (cases "map_of (rev deps) k")
    case (Some v)
    with look have "map_of (rev deps) k = Some (JArray outer)"
      by (simp add: map_add_def)
    then show ?thesis by (rule new)
  next
    case None
    with look have k: "k = k0" and outer: "outer = outer0"
      by (auto simp: map_add_def kv v0 split: if_splits)
    from None have "k \<notin> fst ` set (rev deps)"
      by (simp add: map_of_eq_None_iff)
    then have "d k = (acc(k0 \<mapsto> g0)) k"
      using old [of k] by simp
    with k outer o0 show ?thesis by simp
  qed
  from run dom' old' new' show ?case by blast
qed

section \<open>Encoding and decoding are inverse on trees of strings\<close>

subsection \<open>String literals\<close>


lemma hex_value_hex_digit: "n < 16 \<Longrightarrow> hex_value (hex_digit n) = Some n"
  by (auto simp: hex_value_def hex_digit_def Let_def)

lemma rune_len_ascii: "(of_char c :: nat) < 0x80 \<Longrightarrow> rune_len (c # cs) = 1"
  by (simp add: rune_len_def utf8_need_def)

lemma rune_len_bounds:
  "rune_len (c # cs) = n \<Longrightarrow> \<not> (of_char c :: nat) < 0x80 \<Longrightarrow> n \<noteq> 0 \<Longrightarrow>
     2 \<le> n \<and> n - 1 \<le> length cs"
  by (cases cs) (auto simp: rune_len_def utf8_need_def Let_def Suc_le_eq split: if_splits)

lemma rune_len_prefix:
  assumes "rune_len (c # cs) = n" "\<not> (of_char c :: nat) < 0x80" "n \<noteq> 0"
  shows "rune_len (c # take (n - 1) cs @ ys) = n"
proof -
  from rune_len_bounds [OF assms] have n: "2 \<le> n" "n - 1 \<le> length cs" by auto
  then obtain d ds where cs: "cs = d # ds" by (cases cs) auto
  have tk: "take (n - 2) (take (n - Suc (Suc 0)) ds @ ys) = take (n - 2) ds"
    using n by (simp add: cs)
  have "n - 1 = Suc (n - 2)" using n by simp
  then show ?thesis
    using assms n tk
    by (auto simp: rune_len_def Let_def cs split: if_splits)
qed

lemma scan_escape_ascii:
  assumes "(of_char c :: nat) < 0x80"
    and "scan_string (X @ DQ # rest) = Some (cs, rest)"
  shows "scan_string (escape_ascii c @ X @ DQ # rest) = Some (c # cs, rest)"
proof -
  have hex: "getu4 (CHR ''0'' # CHR ''0'' # hex_digit (of_char c div 16) # hex_digit (of_char c mod 16) # Y)
      = Some (of_char c)" for Y
    using assms(1) by (simp add: hex_value_hex_digit) (simp add: hex_value_def)
  have enc: "utf8_encode (of_char c) = [c]"
    using assms(1) by (simp add: utf8_encode_def)
  show ?thesis
    using assms hex enc
    by (auto simp: escape_ascii_def simple_escape_def emit_def)
qed


lemma utf8_encode_separators:
  "utf8_encode 0x2028 = [CHR 0xE2, CHR 0x80, CHR 0xA8]"
  "utf8_encode 0x2029 = [CHR 0xE2, CHR 0x80, CHR 0xA9]"
  by (simp_all add: utf8_encode_def char_of_eq_iff)

lemma scan_u2028:
  "scan_string (BS # CHR ''u'' # CHR ''2'' # CHR ''0'' # CHR ''2'' # CHR ''8'' # X) = emit [CHR 0xE2, CHR 0x80, CHR 0xA8] (scan_string X)"
  using utf8_encode_separators(1) by (simp add: hex_value_def)

lemma scan_u2029:
  "scan_string (BS # CHR ''u'' # CHR ''2'' # CHR ''0'' # CHR ''2'' # CHR ''9'' # X) = emit [CHR 0xE2, CHR 0x80, CHR 0xA9] (scan_string X)"
  using utf8_encode_separators(2) by (simp add: hex_value_def)

lemma scan_escape_body:
  "valid_utf8 s \<Longrightarrow> scan_string (escape_body s @ DQ # rest) = Some (s, rest)"
proof (induction "length s" arbitrary: s rule: less_induct)
  case less
  show ?case
  proof (cases s)
    case Nil
    then show ?thesis by simp
  next
    case (Cons c cs)
    show ?thesis
    proof (cases "(of_char c :: nat) < 0x80")
      case True
      with less.prems have "valid_utf8 cs"
        by (simp add: Cons rune_len_ascii)
      then have IH: "scan_string (escape_body cs @ DQ # rest) = Some (cs, rest)"
        using less.hyps [of cs] by (simp add: Cons)
      show ?thesis
        using scan_escape_ascii [OF True IH] True by (simp add: Cons)
    next
      case False
      define n where "n = rune_len (c # cs)"
      from less.prems have n0: "n \<noteq> 0" and v: "valid_utf8 (drop (n - 1) cs)"
        by (simp_all add: Cons n_def Let_def)
      from rune_len_bounds [OF n_def [symmetric] False n0]
      have n: "2 \<le> n" "n - 1 \<le> length cs" by auto
      have IH: "scan_string (escape_body (drop (n - 1) cs) @ DQ # rest)
          = Some (drop (n - 1) cs, rest)"
        using less.hyps [of "drop (n - 1) cs"] v by (simp add: Cons)
      have pre: "rune_len (c # take (n - 1) cs @ ys) = n" for ys
        using rune_len_prefix [OF n_def [symmetric] False n0] .
      have cBS: "c \<noteq> DQ" "c \<noteq> BS" "\<not> (of_char c :: nat) < 0x20"
        using False by auto
      show ?thesis
      proof (cases "c = CHR 0xE2 \<and> (take 2 cs = [CHR 0x80, CHR 0xA8] \<or> take 2 cs = [CHR 0x80, CHR 0xA9])")
        case True
        then have n3: "n = 3"
          by (cases cs; cases "tl cs")
            (auto simp: n_def rune_len_def utf8_need_def second_lo_def second_hi_def
              continuation_def Let_def)
        have IH3: "scan_string (escape_body (drop 2 cs) @ DQ # rest) = Some (drop 2 cs, rest)"
          using IH n3 by simp
        have cs: "take 2 cs @ drop 2 cs = cs" by simp
        have "scan_string (escape_body (c # cs) @ DQ # rest)
            = emit (c # take 2 cs) (scan_string (escape_body (drop 2 cs) @ DQ # rest))"
          using True n0 False unfolding n_def
          by (auto simp: Let_def scan_u2028 scan_u2029 simp del: scan_string.simps)
        also have "\<dots> = Some (c # take 2 cs @ drop 2 cs, rest)"
          by (simp add: IH3 emit_def del: append_take_drop_id)
        finally show ?thesis
          unfolding cs Cons .
      next
        case other: False
        have "scan_string (escape_body s @ DQ # rest)
            = scan_string (c # take (n - 1) cs @ escape_body (drop (n - 1) cs) @ DQ # rest)"
          using other False n0 by (auto simp: Cons n_def [symmetric] Let_def)
        also have "\<dots> = emit (c # take (n - 1) cs) (scan_string (escape_body (drop (n - 1) cs) @ DQ # rest))"
          using cBS False pre n n0 by (simp add: Let_def)
        also have "\<dots> = Some (c # take (n - 1) cs @ drop (n - 1) cs, rest)"
          using IH by (simp add: emit_def)
        finally have "scan_string (escape_body s @ DQ # rest) = Some (c # cs, rest)"
          by simp
        then show ?thesis by (simp only: Cons)
      qed
    qed
  qed
qed

subsection \<open>Tokens\<close>

text \<open>
  The trees that \<^verbatim>\<open>Metadata.JSON\<close> builds: strings, arrays and maps only, every string
  well-formed UTF-8, the keys of every map distinct.
\<close>

fun wf_tree :: "json \<Rightarrow> bool" where
  "wf_tree (JString s) = valid_utf8 s"
| "wf_tree (JArray xs) = list_all wf_tree xs"
| "wf_tree (JObject kvs) =
     (list_all (\<lambda>(k, v). valid_utf8 k \<and> wf_tree v) kvs \<and> distinct (map fst kvs))"
| "wf_tree v = False"

fun sep_tokens :: "token list list \<Rightarrow> token list" where
  "sep_tokens [] = []"
| "sep_tokens [x] = x"
| "sep_tokens (x # y # ys) = x @ TComma # sep_tokens (y # ys)"

fun tokens :: "json \<Rightarrow> token list" where
  "tokens (JString s) = [TString s]"
| "tokens (JArray xs) = TLBrack # sep_tokens (map tokens xs) @ [TRBrack]"
| "tokens (JObject kvs) =
     TLBrace # sep_tokens (map (\<lambda>(k, v). TString k # TColon # tokens v) kvs) @ [TRBrace]"
| "tokens v = []"

lemma tokenize_spaces: "tokenize (replicate n CHR '' '' @ s) = tokenize s"
  by (induction n) (simp_all add: isSpace_def)

lemma tokenize_newline: "tokenize (newline d @ s) = tokenize s"
  by (simp add: newline_def isSpace_def tokenize_spaces)

lemma tokenize_appendString:
  "valid_utf8 s \<Longrightarrow>
     tokenize (appendString s @ rest) = map_option ((#) (TString s)) (tokenize rest)"
  by (simp add: appendString_def isSpace_def first_token_def scan_escape_body)

lemma tokenize_join:
  assumes "xs \<noteq> []"
    and "\<And>x rest. x \<in> set xs \<Longrightarrow>
            tokenize (f x @ rest) = map_option ((@) (g x)) (tokenize rest)"
  shows "tokenize (join_with (CHR '','' # newline e) (map f xs) @ rest)
           = map_option ((@) (sep_tokens (map g xs))) (tokenize rest)"
  using assms
proof (induction xs rule: induct_list012)
  case 1
  then show ?case by simp
next
  case (2 x)
  then show ?case by simp
next
  case (3 x y zs)
  have IH: "tokenize (join_with (CHR '','' # newline e) (map f (y # zs)) @ rest)
      = map_option ((@) (sep_tokens (map g (y # zs)))) (tokenize rest)"
    using "3.IH"(2) "3.prems"(2) by simp
  have "tokenize (join_with (CHR '','' # newline e) (map f (x # y # zs)) @ rest)
      = map_option ((@) (g x))
          (tokenize (CHR '','' # newline e @ join_with (CHR '','' # newline e) (map f (y # zs)) @ rest))"
    using "3.prems"(2) [of x] by simp
  also have "\<dots> = map_option ((@) (g x))
      (map_option ((#) TComma)
         (tokenize (join_with (CHR '','' # newline e) (map f (y # zs)) @ rest)))"
    by (simp add: isSpace_def first_token_def tokenize_newline)
  also have "\<dots> = map_option ((@) (sep_tokens (map g (x # y # zs)))) (tokenize rest)"
    unfolding IH by (cases "tokenize rest") simp_all
  finally show ?case .
qed

lemma tokenize_render:
  "wf_tree v \<Longrightarrow> tokenize (render d v @ rest) = map_option ((@) (tokens v)) (tokenize rest)"
proof (induction v arbitrary: d rest)
  case (JString s)
  then show ?case
    by (cases "tokenize rest") (simp_all add: tokenize_appendString)
next
  case (JArray xs)
  show ?case
  proof (cases "xs = []")
    case True
    then show ?thesis
      by (cases "tokenize rest") (simp_all add: isSpace_def first_token_def)
  next
    case False
    have elems: "\<And>x rest. x \<in> set xs \<Longrightarrow>
        tokenize (render (Suc d) x @ rest) = map_option ((@) (tokens x)) (tokenize rest)"
      using JArray by (simp add: list_all_iff)
    have "tokenize (render d (JArray xs) @ rest)
        = map_option ((#) TLBrack)
            (tokenize (join_with (CHR '','' # newline (Suc d)) (map (render (Suc d)) xs)
                        @ newline d @ CHR '']'' # rest))"
      using False by (simp add: isSpace_def first_token_def tokenize_newline)
    also have "\<dots> = map_option ((#) TLBrack)
        (map_option ((@) (sep_tokens (map tokens xs))) (tokenize (newline d @ CHR '']'' # rest)))"
      by (simp only: tokenize_join [OF False elems])
    also have "\<dots> = map_option ((@) (tokens (JArray xs))) (tokenize rest)"
      by (cases "tokenize rest") (simp_all add: tokenize_newline isSpace_def first_token_def)
    finally show ?thesis .
  qed
next
  case (JObject kvs)
  let ?f = "\<lambda>(k, v). appendString k @ '': '' @ render (Suc d) v"
  let ?g = "\<lambda>(k, v). TString k # TColon # tokens v"
  show ?case
  proof (cases "kvs = []")
    case True
    then show ?thesis
      by (cases "tokenize rest") (simp_all add: isSpace_def first_token_def)
  next
    case False
    have entries: "\<And>x rest. x \<in> set kvs \<Longrightarrow>
        tokenize (?f x @ rest) = map_option ((@) (?g x)) (tokenize rest)"
    proof -
      fix x rest assume x: "x \<in> set kvs"
      obtain k v where kv: "x = (k, v)" by (cases x)
      from x JObject.prems have wf: "valid_utf8 k" "wf_tree v"
        by (auto simp: kv list_all_iff)
      have IH: "tokenize (render (Suc d) v @ rest) = map_option ((@) (tokens v)) (tokenize rest)"
        using JObject.IH [of x v "Suc d" rest] x wf by (simp add: kv)
      show "tokenize (?f x @ rest) = map_option ((@) (?g x)) (tokenize rest)"
        by (cases "tokenize rest")
          (simp_all add: kv tokenize_appendString [OF wf(1)] isSpace_def first_token_def IH)
    qed
    have "tokenize (render d (JObject kvs) @ rest)
        = map_option ((#) TLBrace)
            (tokenize (join_with (CHR '','' # newline (Suc d)) (map ?f kvs)
                        @ newline d @ CHR ''}'' # rest))"
      using False by (simp add: isSpace_def first_token_def tokenize_newline)
    also have "\<dots> = map_option ((#) TLBrace)
        (map_option ((@) (sep_tokens (map ?g kvs))) (tokenize (newline d @ CHR ''}'' # rest)))"
      by (simp only: tokenize_join [OF False entries])
    also have "\<dots> = map_option ((@) (tokens (JObject kvs))) (tokenize rest)"
      by (cases "tokenize rest") (simp_all add: tokenize_newline isSpace_def first_token_def)
    finally show ?thesis .
  qed
qed simp_all

subsection \<open>The machine\<close>

definition run_from :: "pstate option \<Rightarrow> token list \<Rightarrow> pstate option" where
  "run_from s ts = (case s of None \<Rightarrow> None | Some s' \<Rightarrow> run s' ts)"

lemma run_append: "run s (xs @ ys) = run_from (run s xs) ys"
  by (induction xs arbitrary: s) (simp_all add: run_from_def split: option.splits)

lemma mapassign_fresh: "k \<notin> fst ` set kvs \<Longrightarrow> mapassign k v kvs = kvs @ [(k, v)]"
  by (induction kvs) auto

lemma run_elements:
  assumes "xs \<noteq> []"
    and "e = Value \<or> e = ValueOrClose"
    and "\<And>x e st ts. x \<in> set xs \<Longrightarrow> e = Value \<or> e = ValueOrClose \<Longrightarrow>
            run (Expect e st) (tokens x @ ts) = run_from (deliver x st) ts"
  shows "run (Expect e (FArray acc # st)) (sep_tokens (map tokens xs) @ TRBrack # ts)
           = run_from (deliver (JArray (acc @ xs)) st) ts"
  using assms
proof (induction xs arbitrary: acc e rule: induct_list012)
  case 1
  then show ?case by simp
next
  case (2 x)
  then show ?case
    by (simp add: run_from_def)
next
  case (3 x y zs)
  have IH: "run (Expect Value (FArray (acc @ [x]) # st))
              (sep_tokens (map tokens (y # zs)) @ TRBrack # ts)
            = run_from (deliver (JArray ((acc @ [x]) @ y # zs)) st) ts"
    using "3.IH"(2) [of Value "acc @ [x]"] "3.prems"(3) by simp
  have "run (Expect e (FArray acc # st)) (sep_tokens (map tokens (x # y # zs)) @ TRBrack # ts)
      = run_from (deliver x (FArray acc # st))
          (TComma # sep_tokens (map tokens (y # zs)) @ TRBrack # ts)"
    using "3.prems"(3) [of x e] "3.prems"(2) by simp
  also have "\<dots> = run (Expect Value (FArray (acc @ [x]) # st))
      (sep_tokens (map tokens (y # zs)) @ TRBrack # ts)"
    by (simp add: run_from_def)
  finally show ?case
    using IH by simp
qed

lemma run_entries:
  assumes "kvs \<noteq> []"
    and "e = KeyOrClose \<or> e = Key"
    and "distinct (map fst (acc @ kvs))"
    and "\<And>k v e st ts. (k, v) \<in> set kvs \<Longrightarrow> e = Value \<or> e = ValueOrClose \<Longrightarrow>
            run (Expect e st) (tokens v @ ts) = run_from (deliver v st) ts"
  shows "run (Expect e (FObject acc # st))
           (sep_tokens (map (\<lambda>(k, v). TString k # TColon # tokens v) kvs) @ TRBrace # ts)
           = run_from (deliver (JObject (acc @ kvs)) st) ts"
  using assms
proof (induction kvs arbitrary: acc e rule: induct_list012)
  case 1
  then show ?case by simp
next
  case (2 kv)
  obtain k v where kv: "kv = (k, v)" by (cases kv)
  have fresh: "mapassign k v acc = acc @ [(k, v)]"
    using "2.prems"(3) by (intro mapassign_fresh) (auto simp: kv)
  show ?case
    using "2.prems"(2) "2.prems"(4) [of k v Value] fresh
    by (auto simp: kv run_from_def)
next
  case (3 kv y zs)
  obtain k v where kv: "kv = (k, v)" by (cases kv)
  have fresh: "mapassign k v acc = acc @ [(k, v)]"
    using "3.prems"(3) by (intro mapassign_fresh) (auto simp: kv)
  have IH: "run (Expect Key (FObject (acc @ [kv]) # st))
              (sep_tokens (map (\<lambda>(k, v). TString k # TColon # tokens v) (y # zs)) @ TRBrace # ts)
            = run_from (deliver (JObject ((acc @ [kv]) @ y # zs)) st) ts"
  proof (rule "3.IH"(2))
    show "y # zs \<noteq> []" by simp
    show "Key = KeyOrClose \<or> Key = Key" by simp
    show "distinct (map fst ((acc @ [kv]) @ y # zs))"
      using "3.prems"(3) by simp
    fix k v e st ts
    assume "(k, v) \<in> set (y # zs)" and "e = Value \<or> e = ValueOrClose"
    then show "run (Expect e st) (tokens v @ ts) = run_from (deliver v st) ts"
      using "3.prems"(4) [of k v e st ts] by simp
  qed
  have "run (Expect e (FObject acc # st))
          (sep_tokens (map (\<lambda>(k, v). TString k # TColon # tokens v) (kv # y # zs)) @ TRBrace # ts)
      = run (Expect Value (FField acc k # st))
          (tokens v @ TComma # sep_tokens (map (\<lambda>(k, v). TString k # TColon # tokens v) (y # zs))
             @ TRBrace # ts)"
    using "3.prems"(2) by (auto simp: kv)
  also have "\<dots> = run (Expect Key (FObject (acc @ [kv]) # st))
      (sep_tokens (map (\<lambda>(k, v). TString k # TColon # tokens v) (y # zs)) @ TRBrace # ts)"
    using "3.prems"(4) [of k v Value] fresh by (simp add: kv run_from_def)
  finally show ?case
    using IH by simp
qed

lemma run_tokens:
  "wf_tree v \<Longrightarrow> e = Value \<or> e = ValueOrClose \<Longrightarrow>
     run (Expect e st) (tokens v @ ts) = run_from (deliver v st) ts"
proof (induction v arbitrary: e st ts)
  case (JString s)
  then show ?case by (auto simp: run_from_def)
next
  case (JArray xs)
  show ?case
  proof (cases "xs = []")
    case True
    with JArray.prems show ?thesis by (auto simp: run_from_def)
  next
    case False
    have elems: "\<And>x e st ts. x \<in> set xs \<Longrightarrow> e = Value \<or> e = ValueOrClose \<Longrightarrow>
            run (Expect e st) (tokens x @ ts) = run_from (deliver x st) ts"
      using JArray by (simp add: list_all_iff)
    have "run (Expect e st) (tokens (JArray xs) @ ts)
        = run (Expect ValueOrClose (FArray [] # st)) (sep_tokens (map tokens xs) @ TRBrack # ts)"
      using JArray.prems(2) by auto
    also have "\<dots> = run_from (deliver (JArray ([] @ xs)) st) ts"
      by (rule run_elements [OF False _ elems]) simp_all
    finally show ?thesis by simp
  qed
next
  case (JObject kvs)
  show ?case
  proof (cases "kvs = []")
    case True
    with JObject.prems show ?thesis by (auto simp: run_from_def)
  next
    case False
    have entries: "\<And>k v e st ts. (k, v) \<in> set kvs \<Longrightarrow> e = Value \<or> e = ValueOrClose \<Longrightarrow>
            run (Expect e st) (tokens v @ ts) = run_from (deliver v st) ts"
    proof -
      fix k v e st ts
      assume kv: "(k, v) \<in> set kvs" and e: "e = Value \<or> e = ValueOrClose"
      from kv JObject.prems(1) have "wf_tree v" by (auto simp: list_all_iff)
      with JObject.IH [of "(k, v)" v e st ts] kv e
      show "run (Expect e st) (tokens v @ ts) = run_from (deliver v st) ts" by simp
    qed
    have dist: "distinct (map fst ([] @ kvs))"
      using JObject.prems(1) by simp
    have "run (Expect e st) (tokens (JObject kvs) @ ts)
        = run (Expect KeyOrClose (FObject [] # st))
            (sep_tokens (map (\<lambda>(k, v). TString k # TColon # tokens v) kvs) @ TRBrace # ts)"
      using JObject.prems(2) by auto
    also have "\<dots> = run_from (deliver (JObject ([] @ kvs)) st) ts"
      by (rule run_entries [OF False _ dist entries]) simp_all
    finally show ?thesis by simp
  qed
qed simp_all

lemma parse_tokens: "wf_tree v \<Longrightarrow> parse (tokens v) = Some v"
  using run_tokens [of v Value "[]" "[]"] by (simp add: parse_def run_from_def)

lemma wf_tree_no_numbers: "wf_tree v \<Longrightarrow> \<not> number_out_of_range v"
  by (induction v) (auto simp: list_all_iff list_ex_iff)

lemma wf_tree_supported: "wf_tree v \<Longrightarrow> supported v"
  by (induction v) (auto simp: list_all_iff)

text \<open>
  Decoding the text of a map of strings, arrays and maps gives back its entries, as long as
  it is not nested deeper than the scanner allows.
\<close>

lemma unmarshal_render:
  assumes "wf_tree (JObject kvs)" and "depth (JObject kvs) \<le> 10000"
  shows "json_Unmarshal (render 0 (JObject kvs) @ [CHR 0x0A]) = Inr kvs"
proof -
  have "tokenize (render 0 (JObject kvs) @ [CHR 0x0A]) = Some (tokens (JObject kvs))"
    using tokenize_render [OF assms(1), of 0 "[CHR 0x0A]"] by (simp add: isSpace_def)
  then show ?thesis
    using parse_tokens [OF assms(1)] assms(2) wf_tree_no_numbers [OF assms(1)]
    by (simp add: json_Unmarshal_def del: tokens.simps depth.simps wf_tree.simps
        number_out_of_range.simps)
qed

subsection \<open>Decoded strings are well-formed UTF-8\<close>

fun utf8_tree :: "json \<Rightarrow> bool" where
  "utf8_tree (JString s) = valid_utf8 s"
| "utf8_tree (JArray xs) = list_all utf8_tree xs"
| "utf8_tree (JObject kvs) = list_all (\<lambda>(k, v). valid_utf8 k \<and> utf8_tree v) kvs"
| "utf8_tree v = True"

lemma valid_utf8_ascii: "list_all (\<lambda>c. (of_char c :: nat) < 0x80) s \<Longrightarrow> valid_utf8 s"
  by (induction s) (simp_all add: rune_len_ascii)

lemma rune_len_append:
  assumes "rune_len (c # cs) \<noteq> 0"
  shows "rune_len (c # cs @ ys) = rune_len (c # cs)"
proof (cases "(of_char c :: nat) < 0x80")
  case True
  then show ?thesis by (simp add: rune_len_ascii)
next
  case False
  define n where "n = rune_len (c # cs)"
  from rune_len_bounds [OF n_def [symmetric] False] assms
  have n: "2 \<le> n" "n - 1 \<le> length cs" by (auto simp: n_def)
  have split: "take (n - 1) cs @ (drop (n - 1) cs @ ys) = cs @ ys" by simp
  have n0: "n \<noteq> 0" using assms by (simp add: n_def)
  have "rune_len (c # take (n - 1) cs @ (drop (n - 1) cs @ ys)) = n"
    by (rule rune_len_prefix [OF n_def [symmetric] False n0])
  then have "rune_len (c # cs @ ys) = n"
    unfolding split .
  then show ?thesis
    by (simp only: n_def)
qed

lemma valid_utf8_append: "valid_utf8 a \<Longrightarrow> valid_utf8 b \<Longrightarrow> valid_utf8 (a @ b)"
proof (induction "length a" arbitrary: a rule: less_induct)
  case less
  show ?case
  proof (cases a)
    case Nil
    with less.prems show ?thesis by simp
  next
    case (Cons c cs)
    define n where "n = rune_len (c # cs)"
    from less.prems(1) have n0: "n \<noteq> 0" and v: "valid_utf8 (drop (n - 1) cs)"
      by (simp_all add: Cons n_def Let_def)
    have len: "n - 1 \<le> length cs"
    proof (cases "(of_char c :: nat) < 0x80")
      case True
      then show ?thesis by (simp add: n_def rune_len_ascii)
    next
      case False
      from rune_len_bounds [OF n_def [symmetric] False n0] show ?thesis by simp
    qed
    have rl: "rune_len (c # cs @ b) = n"
      using rune_len_append [of c cs b] n0 by (simp add: n_def)
    have "valid_utf8 (drop (n - 1) cs @ b)"
      using less.hyps [of "drop (n - 1) cs"] v less.prems(2) by (simp add: Cons)
    then show ?thesis
      using rl n0 len by (simp add: Cons Let_def)
  qed
qed

lemma valid_utf8_rune:
  assumes "rune_len (c # cs) = n" "n \<noteq> 0"
  shows "valid_utf8 (c # take (n - 1) cs)"
proof (cases "(of_char c :: nat) < 0x80")
  case True
  with assms show ?thesis by (simp add: rune_len_ascii)
next
  case False
  from rune_len_prefix [OF assms(1) False assms(2), of "[]"]
    rune_len_bounds [OF assms(1) False assms(2)] assms(2)
  show ?thesis by (simp add: Let_def)
qed

lemma valid_two:
  fixes a b :: nat
  assumes "0xC2 \<le> a" "a \<le> 0xDF" "0x80 \<le> b" "b \<le> 0xBF"
  shows "valid_utf8 [char_of a, char_of b]"
proof -
  have "(of_char (char_of a) :: nat) = a" "(of_char (char_of b) :: nat) = b"
    using assms by simp_all
  then show ?thesis
    using assms
    by (simp add: rune_len_def utf8_need_def second_lo_def second_hi_def Let_def)
qed

lemma valid_three:
  fixes a b c :: nat
  assumes "0xE0 \<le> a" "a \<le> 0xEF" "0x80 \<le> b" "b \<le> 0xBF" "0x80 \<le> c" "c \<le> 0xBF"
    and "a = 0xE0 \<longrightarrow> 0xA0 \<le> b" and "a = 0xED \<longrightarrow> b \<le> 0x9F"
  shows "valid_utf8 [char_of a, char_of b, char_of c]"
proof -
  have "(of_char (char_of a) :: nat) = a" "(of_char (char_of b) :: nat) = b"
    "(of_char (char_of c) :: nat) = c"
    using assms by simp_all
  then show ?thesis
    using assms
    by (simp add: rune_len_def utf8_need_def second_lo_def second_hi_def continuation_def
        Let_def)
qed

lemma valid_four:
  fixes a b c d :: nat
  assumes "0xF0 \<le> a" "a \<le> 0xF4" "0x80 \<le> b" "b \<le> 0xBF" "0x80 \<le> c" "c \<le> 0xBF"
    "0x80 \<le> d" "d \<le> 0xBF"
    and "a = 0xF0 \<longrightarrow> 0x90 \<le> b" and "a = 0xF4 \<longrightarrow> b \<le> 0x8F"
  shows "valid_utf8 [char_of a, char_of b, char_of c, char_of d]"
proof -
  have "(of_char (char_of a) :: nat) = a" "(of_char (char_of b) :: nat) = b"
    "(of_char (char_of c) :: nat) = c" "(of_char (char_of d) :: nat) = d"
    using assms by simp_all
  then show ?thesis
    using assms
    by (simp add: rune_len_def utf8_need_def second_lo_def second_hi_def continuation_def
        Let_def)
qed

lemma valid_replacement: "valid_utf8 replacement"
  by (simp add: rune_len_def utf8_need_def second_lo_def second_hi_def continuation_def)

lemma div_bounds:
  fixes r :: nat
  assumes "q * k \<le> r" "r < (q + n) * k"
  shows "q \<le> r div k" "r div k < q + n"
proof -
  have k: "0 < k" using assms by (cases k) auto
  show "q \<le> r div k"
    using assms(1) k by (simp add: less_eq_div_iff_mult_less_eq)
  show "r div k < q + n"
    using assms(2) k by (simp add: div_less_iff_less_mult)
qed

lemma div_eq_bounds:
  fixes r :: nat
  assumes "r div k = q" "0 < k"
  shows "q * k \<le> r" "r < (q + 1) * k"
proof -
  show "q * k \<le> r" using assms(1) by auto
  have "r < k + (r div k) * k" using dividend_less_div_times [OF assms(2)] .
  then show "r < (q + 1) * k" using assms(1) by simp
qed

lemma mod_shift:
  fixes x :: nat
  assumes "q * k \<le> x" "x < q * k + n" "n \<le> k"
  shows "x mod k < n"
proof -
  obtain y where x: "x = q * k + y" and y: "y < n"
    using assms(1,2) by (metis le_Suc_ex nat_add_left_cancel_less)
  have "x mod k = y mod k" by (simp add: x)
  also have "\<dots> = y" using y assms(3) by simp
  finally show ?thesis using y by simp
qed

lemma mod_shift_ge:
  fixes x :: nat
  assumes "q * k + n \<le> x" "x < (q + 1) * k"
  shows "n \<le> x mod k"
proof -
  obtain y where x: "x = q * k + y"
    using assms(1) by (metis add_leD1 le_Suc_ex)
  have y: "n \<le> y" "y < k" using assms by (simp_all add: x)
  have "x mod k = y mod k" by (simp add: x)
  also have "\<dots> = y" using y by simp
  finally show ?thesis using y by simp
qed

lemma utf8_two_bytes: fixes r :: nat assumes "0x80 \<le> r" "r < 0x800"
  shows "0xC2 \<le> 0xC0 + r div 64" "0xC0 + r div 64 \<le> 0xDF" "0x80 \<le> 0x80 + r mod 64" "0x80 + r mod 64 \<le> 0xBF"
proof -
  have "2 \<le> r div 64" "r div 64 < 2 + 30"
    using assms div_bounds [of 2 64 r 30] by simp_all
  then show "0xC2 \<le> 0xC0 + r div 64" "0xC0 + r div 64 \<le> 0xDF" by simp_all
  have "r mod 64 < 64" by simp
  then show "0x80 \<le> 0x80 + r mod 64" "0x80 + r mod 64 \<le> 0xBF" by simp_all
qed

lemma utf8_three_bytes: fixes r :: nat assumes "0x800 \<le> r" "r < 0x10000" "\<not> (0xD800 \<le> r \<and> r < 0xE000)"
  shows "0xE0 + r div 4096 \<le> 0xEF"
    "0xE0 + r div 4096 = 0xE0 \<longrightarrow> 0xA0 \<le> 0x80 + r div 64 mod 64"
    "0xE0 + r div 4096 = 0xED \<longrightarrow> 0x80 + r div 64 mod 64 \<le> 0x9F"
proof -
  have "r div 4096 < 0 + 16"
    using assms div_bounds [of 0 4096 r 16] by simp
  then show "0xE0 + r div 4096 \<le> 0xEF" by simp
  show "0xE0 + r div 4096 = 0xE0 \<longrightarrow> 0xA0 \<le> 0x80 + r div 64 mod 64"
  proof
    assume "0xE0 + r div 4096 = 0xE0"
    then have "r div 4096 = 0" by simp
    from div_eq_bounds [OF this] have "r < 4096" by simp
    then have "0 * 64 + 32 \<le> r div 64" "r div 64 < (0 + 1) * 64"
      using assms(1) div_bounds [of 32 64 r 32] by simp_all
    from mod_shift_ge [OF this] show "0xA0 \<le> 0x80 + r div 64 mod 64" by simp
  qed
  show "0xE0 + r div 4096 = 0xED \<longrightarrow> 0x80 + r div 64 mod 64 \<le> 0x9F"
  proof
    assume "0xE0 + r div 4096 = 0xED"
    then have "r div 4096 = 13" by simp
    from div_eq_bounds [OF this] have "53248 \<le> r" "r < 57344" by simp_all
    with assms(3) have "r < 55296" by simp
    with \<open>53248 \<le> r\<close> have "13 * 64 \<le> r div 64" "r div 64 < 13 * 64 + 32"
      using div_bounds [of 832 64 r 32] by simp_all
    from mod_shift [OF this] have "r div 64 mod 64 < 32" by simp
    then show "0x80 + r div 64 mod 64 \<le> 0x9F" by simp
  qed
qed

lemma utf8_four_bytes: fixes r :: nat assumes "0x10000 \<le> r" "r \<le> 0x10FFFF"
  shows "0xF0 + r div 262144 \<le> 0xF4"
    "0xF0 + r div 262144 = 0xF0 \<longrightarrow> 0x90 \<le> 0x80 + r div 4096 mod 64"
    "0xF0 + r div 262144 = 0xF4 \<longrightarrow> 0x80 + r div 4096 mod 64 \<le> 0x8F"
proof -
  have "r div 262144 < 0 + 5"
    using assms div_bounds [of 0 262144 r 5] by simp
  then show "0xF0 + r div 262144 \<le> 0xF4" by simp
  show "0xF0 + r div 262144 = 0xF0 \<longrightarrow> 0x90 \<le> 0x80 + r div 4096 mod 64"
  proof
    assume "0xF0 + r div 262144 = 0xF0"
    then have "r div 262144 = 0" by simp
    from div_eq_bounds [OF this] have "r < 262144" by simp
    then have "0 * 64 + 16 \<le> r div 4096" "r div 4096 < (0 + 1) * 64"
      using assms(1) div_bounds [of 16 4096 r 48] by simp_all
    from mod_shift_ge [OF this] show "0x90 \<le> 0x80 + r div 4096 mod 64" by simp
  qed
  show "0xF0 + r div 262144 = 0xF4 \<longrightarrow> 0x80 + r div 4096 mod 64 \<le> 0x8F"
  proof
    assume "0xF0 + r div 262144 = 0xF4"
    then have "r div 262144 = 4" by simp
    from div_eq_bounds [OF this] have "1048576 \<le> r" by simp
    with assms(2) have "4 * 64 \<le> r div 4096" "r div 4096 < 4 * 64 + 16"
      using div_bounds [of 256 4096 r 16] by simp_all
    from mod_shift [OF this] have "r div 4096 mod 64 < 16" by simp
    then show "0x80 + r div 4096 mod 64 \<le> 0x8F" by simp
  qed
qed


lemma valid_utf8_encode: "valid_utf8 (utf8_encode r)"
proof -
  consider (one) "r < 0x80"
    | (two) "0x80 \<le> r" "r < 0x800"
    | (bad) "0x800 \<le> r" "(0xD800 \<le> r \<and> r < 0xE000) \<or> 0x10FFFF < r"
    | (three) "0x800 \<le> r" "r < 0x10000" "\<not> (0xD800 \<le> r \<and> r < 0xE000)"
    | (four) "0x10000 \<le> r" "r \<le> 0x10FFFF"
    by linarith
  then show ?thesis
  proof cases
    case one
    then have "(of_char (char_of r) :: nat) = r" by simp
    with one show ?thesis
      by (simp add: utf8_encode_def rune_len_def utf8_need_def)
  next
    case two
    have "valid_utf8 [char_of (0xC0 + r div 64), char_of (0x80 + r mod 64)]"
      using utf8_two_bytes [OF two] by (intro valid_two)
    with two show ?thesis by (simp add: utf8_encode_def del: valid_utf8.simps)
  next
    case bad
    then show ?thesis
      using valid_replacement by (auto simp: utf8_encode_def simp del: valid_utf8.simps)
  next
    case three
    have m: "r div 64 mod 64 < 64" "r mod 64 < 64" by simp_all
    have "valid_utf8 [char_of (0xE0 + r div 4096), char_of (0x80 + r div 64 mod 64),
        char_of (0x80 + r mod 64)]"
      using utf8_three_bytes [OF three] m by (intro valid_three) simp_all
    with three show ?thesis by (auto simp: utf8_encode_def simp del: valid_utf8.simps)
  next
    case four
    have m: "r div 4096 mod 64 < 64" "r div 64 mod 64 < 64" "r mod 64 < 64" by simp_all
    have "valid_utf8 [char_of (0xF0 + r div 262144), char_of (0x80 + r div 4096 mod 64),
        char_of (0x80 + r div 64 mod 64), char_of (0x80 + r mod 64)]"
      using utf8_four_bytes [OF four] m by (intro valid_four) simp_all
    with four show ?thesis by (auto simp: utf8_encode_def simp del: valid_utf8.simps)
  qed
qed

lemma emit_valid:
  "emit pre r = Some (s, rest) \<Longrightarrow> valid_utf8 pre \<Longrightarrow>
     (\<And>s'. r = Some (s', rest) \<Longrightarrow> valid_utf8 s') \<Longrightarrow> valid_utf8 s"
  by (cases r) (auto simp: emit_def simp del: valid_utf8.simps intro: valid_utf8_append)

lemma valid_simple_escape: "simple_escape e = Some x \<Longrightarrow> valid_utf8 [x]"
  by (auto simp: simple_escape_def rune_len_def utf8_need_def split: if_splits)

lemma scan_string_valid: "scan_string cs = Some (s, rest) \<Longrightarrow> valid_utf8 s"
proof (induction "length cs" arbitrary: cs s rule: less_induct)
  case less
  have IH: "\<And>cs' s'. scan_string cs' = Some (s', rest) \<Longrightarrow> length cs' < length cs
              \<Longrightarrow> valid_utf8 s'"
    using less.hyps by blast
  show ?case
  proof (cases cs)
    case Nil
    with less.prems show ?thesis by simp
  next
    case (Cons c cs0)
    have rune: "0 < rune_len (c # cs0) \<Longrightarrow> valid_utf8 (c # take (rune_len (c # cs0) - Suc 0) cs0)"
      using valid_utf8_rune [of c cs0 "rune_len (c # cs0)"] by simp
    have one: "(of_char c :: nat) < 0x80 \<Longrightarrow> valid_utf8 [c]"
      by (simp add: rune_len_ascii)
    show ?thesis
      using less.prems unfolding Cons scan_string.simps Let_def
      by (auto split: if_splits list.splits option.splits
          elim!: emit_valid dest!: IH
          intro!: valid_utf8_encode valid_replacement valid_simple_escape one rune
          simp: Cons simp del: valid_utf8.simps(2))
  qed
qed

fun token_ok :: "token \<Rightarrow> bool" where
  "token_ok (TString s) = valid_utf8 s"
| "token_ok t = True"

lemma first_token_ok: "first_token c cs = Some (t, rest) \<Longrightarrow> token_ok t"
  unfolding first_token_def
  apply (simp split: if_splits del: valid_utf8.simps)
   apply (erule exE, erule conjE, drule scan_string_valid, drule sym [of "TString _"],
      simp del: valid_utf8.simps)
  apply (erule exE, erule conjE, drule sym [of "TNumber _"], simp)
  done

lemma tokenize_ok: "tokenize s = Some ts \<Longrightarrow> list_all token_ok ts"
proof (induction s arbitrary: ts rule: tokenize.induct)
  case 1
  then show ?case by simp
next
  case (2 c cs)
  show ?case
  proof (cases "isSpace c")
    case True
    with "2.prems" "2.IH"(1) show ?thesis by simp
  next
    case False
    with "2.prems" obtain t rest ts' where
      ft: "first_token c cs = Some (t, rest)" and ts': "tokenize rest = Some ts'"
      and ts: "ts = t # ts'"
      by (auto split: option.splits)
    from "2.IH"(2) [OF False ft refl ts'] first_token_ok [OF ft]
    show ?thesis by (simp add: ts)
  qed
qed

fun frame_ok :: "frame \<Rightarrow> bool" where
  "frame_ok (FArray xs) = list_all utf8_tree xs"
| "frame_ok (FObject kvs) = list_all (\<lambda>(k, v). valid_utf8 k \<and> utf8_tree v) kvs"
| "frame_ok (FField kvs k) =
     (list_all (\<lambda>(k, v). valid_utf8 k \<and> utf8_tree v) kvs \<and> valid_utf8 k)"

fun state_ok :: "pstate \<Rightarrow> bool" where
  "state_ok (Expect e st) = list_all frame_ok st"
| "state_ok (Done v) = utf8_tree v"

lemma mapassign_all: "list_all Q kvs \<Longrightarrow> Q (k, v) \<Longrightarrow> list_all Q (mapassign k v kvs)"
  by (induction kvs) auto

lemma deliver_ok:
  "deliver v st = Some s' \<Longrightarrow> utf8_tree v \<Longrightarrow> list_all frame_ok st \<Longrightarrow> state_ok s'"
  by (induction v st rule: deliver.induct)
    (auto simp del: valid_utf8.simps intro!: mapassign_all)

lemma begin_value_ok:
  "begin_value t st = Some s' \<Longrightarrow> token_ok t \<Longrightarrow> list_all frame_ok st \<Longrightarrow> state_ok s'"
  by (cases t) (auto simp del: valid_utf8.simps dest: deliver_ok)

lemma begin_key_ok:
  "begin_key t st = Some s' \<Longrightarrow> token_ok t \<Longrightarrow> list_all frame_ok st \<Longrightarrow> state_ok s'"
  by (induction t st rule: begin_key.induct) (auto simp del: valid_utf8.simps)

lemma close_container_ok:
  "close_container t st = Some s' \<Longrightarrow> list_all frame_ok st \<Longrightarrow> state_ok s'"
  by (induction t st rule: close_container.induct)
    (auto simp del: valid_utf8.simps dest: deliver_ok)

lemma step_ok: "step s t = Some s' \<Longrightarrow> state_ok s \<Longrightarrow> token_ok t \<Longrightarrow> state_ok s'"
  by (induction s t rule: step.induct)
    (auto simp del: valid_utf8.simps split: if_splits list.splits frame.splits
      dest: begin_value_ok begin_key_ok close_container_ok)

lemma run_ok: "run s ts = Some s' \<Longrightarrow> state_ok s \<Longrightarrow> list_all token_ok ts \<Longrightarrow> state_ok s'"
  by (induction ts arbitrary: s) (auto split: option.splits dest: step_ok)

text \<open>Every key and every string of a decoded map is well-formed UTF-8.\<close>

lemma unmarshal_utf8:
  assumes "json_Unmarshal data = Inr m"
  shows "list_all (\<lambda>(k, v). valid_utf8 k \<and> utf8_tree v) m"
proof -
  from assms obtain ts v where ts: "tokenize data = Some ts" and v: "parse ts = Some v"
    and m: "v = JObject m \<or> (v = JNull \<and> m = [])"
    by (auto simp: json_Unmarshal_def split: option.splits if_splits json.splits)
  from v have "run (Expect Value []) ts = Some (Done v)"
    by (auto simp: parse_def split: option.splits pstate.splits)
  from run_ok [OF this _ tokenize_ok [OF ts]] have "utf8_tree v" by simp
  with m show ?thesis by auto
qed

lemma mapindex_utf8:
  "list_all (\<lambda>(k, v). valid_utf8 k \<and> utf8_tree v) m \<Longrightarrow> utf8_tree (mapindex m k)"
  by (auto simp: mapindex_def list_all_iff split: option.splits dest!: map_of_SomeD)

section \<open>The round trip of a manifest\<close>

text \<open>
  What the round trip needs from the functions that are parameters: a version (a version
  match) that \<^verbatim>\<open>NewFromString\<close> returns is printed by \<^verbatim>\<open>String\<close> as well-formed UTF-8 that
  \<^verbatim>\<open>NewFromString\<close> reads back as the same value; and the Unicode lower-casing of a well-formed
  UTF-8 string with a non-ASCII byte is well-formed UTF-8 that \<^verbatim>\<open>strings.ToLower\<close> leaves as it
  is.
\<close>

definition packages_ok :: "('v, 'vm) packages \<Rightarrow> bool" where
  "packages_ok P \<longleftrightarrow>
     (\<forall>s v. version_NewFromString P s = Inr v \<longrightarrow>
        version_NewFromString P (version_String P v) = Inr v \<and> valid_utf8 (version_String P v))
   \<and> (\<forall>s m. versionmatch_NewFromString P s = Inr m \<longrightarrow>
        versionmatch_NewFromString P (versionmatch_String P m) = Inr m
        \<and> valid_utf8 (versionmatch_String P m))
   \<and> (\<forall>s. valid_utf8 s \<longrightarrow> \<not> list_all (\<lambda>c. (of_char c :: nat) < 0x80) s \<longrightarrow>
        valid_utf8 (unicode_ToLower P s)
        \<and> strings_ToLower (unicode_ToLower P) (unicode_ToLower P s) = unicode_ToLower P s)"

text \<open>
  A validly constructed Metadata: the properties that every Metadata returned by
  \<^verbatim>\<open>NewFromJSON\<close> has.  (An empty placement token passes the check of lines 95 and 98, so the
  check is stated as the code makes it.)
\<close>

definition valid_metadata :: "('v, 'vm) packages \<Rightarrow> ('v, 'vm) Metadata \<Rightarrow> bool" where
  "valid_metadata P md \<longleftrightarrow>
     valid_utf8 (ToothPath md)
   \<and> strings_ToLower (unicode_ToLower P) (ToothPath md) = ToothPath md
   \<and> IsValidToothPath P (ToothPath md)
   \<and> (\<exists>s. version_NewFromString P s = Inr (Version md))
   \<and> finite (dom (Dependencies md))
   \<and> (\<forall>k groups. Dependencies md k = Some groups \<longrightarrow>
         valid_utf8 k
         \<and> (\<forall>g\<in>set groups. \<forall>vm\<in>set g. \<exists>s. versionmatch_NewFromString P s = Inr vm))
   \<and> valid_utf8 (Name (Information md)) \<and> valid_utf8 (Description (Information md))
   \<and> valid_utf8 (Author (Information md)) \<and> valid_utf8 (License (Information md))
   \<and> valid_utf8 (Homepage (Information md))
   \<and> (\<forall>p\<in>set (Placement md).
         valid_utf8 (Source p) \<and> valid_utf8 (Destination p)
         \<and> reg_FindString (Source p) = Source p
         \<and> reg_FindString (Destination p) = Destination p)"

subsection \<open>A decoded Metadata is valid\<close>

lemma ascii_lower_ascii: "(of_char c :: nat) < 0x80 \<Longrightarrow> (of_char (ascii_lower c) :: nat) < 0x80"
  by (simp add: ascii_lower_def)

lemma ascii_lower_idem: "ascii_lower (ascii_lower c) = ascii_lower c"
  by (simp add: ascii_lower_def)

lemma ToLower_fixed:
  assumes "packages_ok P" and "valid_utf8 s"
  shows "valid_utf8 (strings_ToLower (unicode_ToLower P) s)"
    and "strings_ToLower (unicode_ToLower P) (strings_ToLower (unicode_ToLower P) s)
           = strings_ToLower (unicode_ToLower P) s"
proof -
  let ?ascii = "list_all (\<lambda>c. (of_char c :: nat) < 0x80)"
  have both: "valid_utf8 (strings_ToLower (unicode_ToLower P) s)
    \<and> strings_ToLower (unicode_ToLower P) (strings_ToLower (unicode_ToLower P) s)
           = strings_ToLower (unicode_ToLower P) s"
  proof (cases "?ascii s")
    case True
    then have low: "?ascii (map ascii_lower s)"
      by (simp add: list_all_iff ascii_lower_ascii)
    have "map ascii_lower (map ascii_lower s) = map ascii_lower s"
      by (simp add: ascii_lower_idem)
    with True low valid_utf8_ascii [OF low] show ?thesis
      by (simp add: strings_ToLower_def del: valid_utf8.simps)
  next
    case False
    with assms show ?thesis
      by (simp add: packages_ok_def strings_ToLower_def del: valid_utf8.simps)
  qed
  from both show "valid_utf8 (strings_ToLower (unicode_ToLower P) s)" by blast
  from both show "strings_ToLower (unicode_ToLower P) (strings_ToLower (unicode_ToLower P) s)
           = strings_ToLower (unicode_ToLower P) s" by blast
qed

lemma innerLoop_parsed:
  "innerLoop P xs = Inr g \<Longrightarrow> \<forall>vm\<in>set g. \<exists>s. versionmatch_NewFromString P s = Inr vm"
proof (induction xs arbitrary: g)
  case Nil
  then show ?case by simp
next
  case (Cons x xs)
  from Cons.prems obtain s vm vms where
    "x = JString s" "versionmatch_NewFromString P s = Inr vm" "innerLoop P xs = Inr vms"
    "g = vm # vms"
    by (auto split: json.splits sum.splits)
  with Cons.IH [of vms] show ?case by auto
qed

lemma outerLoop_parsed:
  "outerLoop P xs = Inr groups \<Longrightarrow>
     \<forall>g\<in>set groups. \<forall>vm\<in>set g. \<exists>s. versionmatch_NewFromString P s = Inr vm"
proof (induction xs arbitrary: groups)
  case Nil
  then show ?case by simp
next
  case (Cons x xs)
  from Cons.prems obtain inner g gs where
    "x = JArray inner" "innerLoop P inner = Inr g" "outerLoop P xs = Inr gs" "groups = g # gs"
    by (auto split: json.splits sum.splits)
  with Cons.IH [of gs] innerLoop_parsed [of P inner g] show ?case by auto
qed

lemma dependenciesLoop_parsed:
  assumes "dependenciesLoop P kvs acc = Inr d"
    and "\<And>k groups. acc k = Some groups \<Longrightarrow> Q k groups"
    and "\<And>k outer groups. (k, JArray outer) \<in> set kvs \<Longrightarrow> outerLoop P outer = Inr groups
            \<Longrightarrow> Q k groups"
  shows "d k = Some groups \<Longrightarrow> Q k groups"
  using assms(1,2,3)
proof (induction kvs arbitrary: acc)
  case Nil
  then show ?case by simp
next
  case (Cons kv kvs)
  obtain k' v where kv: "kv = (k', v)" by (cases kv)
  from Cons.prems(2) obtain outer gs where
    v: "v = JArray outer" and o: "outerLoop P outer = Inr gs"
    and rest: "dependenciesLoop P kvs (acc(k' \<mapsto> gs)) = Inr d"
    by (auto simp: kv split: json.splits sum.splits)
  show ?case
  proof (rule Cons.IH [OF Cons.prems(1) rest])
    fix k groups
    assume "(acc(k' \<mapsto> gs)) k = Some groups"
    then show "Q k groups"
      using Cons.prems(3) [of k groups] Cons.prems(4) [of k' outer gs] o
      by (auto simp: kv v split: if_splits)
  next
    fix k outer groups
    assume "(k, JArray outer) \<in> set kvs" "outerLoop P outer = Inr groups"
    then show "Q k groups"
      using Cons.prems(4) [of k outer groups] by simp
  qed
qed

lemma placementLoop_checked:
  "placementLoop ps = Inr pl \<Longrightarrow> list_all utf8_tree ps \<Longrightarrow>
     \<forall>p\<in>set pl. valid_utf8 (Source p) \<and> valid_utf8 (Destination p)
        \<and> reg_FindString (Source p) = Source p
        \<and> reg_FindString (Destination p) = Destination p"
proof (induction ps arbitrary: pl)
  case Nil
  then show ?case by simp
next
  case (Cons x xs)
  from Cons.prems(1) obtain pm src dst rest where x: "x = JObject pm"
    and s: "mapindex pm ''source'' = JString src"
    and d: "mapindex pm ''destination'' = JString dst"
    and ok: "reg_FindString src = src" "reg_FindString dst = dst"
    and rest: "placementLoop xs = Inr rest"
    and pl: "pl = \<lparr>Source = src, Destination = dst\<rparr> # rest"
    by (auto split: json.splits sum.splits if_splits)
  from Cons.prems(2) have pm: "list_all (\<lambda>(k, v). valid_utf8 k \<and> utf8_tree v) pm"
    and xs: "list_all utf8_tree xs"
    by (simp_all add: x)
  have "valid_utf8 src" "valid_utf8 dst"
    using mapindex_utf8 [OF pm, of "''source''"] mapindex_utf8 [OF pm, of "''destination''"]
    by (simp_all add: s d del: valid_utf8.simps)
  with Cons.IH [OF rest xs] ok show ?case
    by (simp add: pl del: valid_utf8.simps)
qed

lemma informationField_utf8:
  assumes "list_all (\<lambda>(k, v). valid_utf8 k \<and> utf8_tree v) m"
    and "informationField m k = Inr s"
  shows "valid_utf8 s"
proof -
  from assms(2) obtain info where i: "mapindex m ''information'' = JObject info"
    and s: "mapindex info k = JString s"
    by (auto simp: informationField_def split: json.splits)
  from mapindex_utf8 [OF assms(1), of "''information''"]
  have "list_all (\<lambda>(k, v). valid_utf8 k \<and> utf8_tree v) info"
    by (simp add: i)
  from mapindex_utf8 [OF this, of k] show ?thesis
    by (simp add: s del: valid_utf8.simps)
qed

lemma decoded_valid:
  assumes P: "packages_ok P"
    and m: "list_all (\<lambda>(k, v). valid_utf8 k \<and> utf8_tree v) m"
    and md: "fromMap P m = Inr md"
  shows "valid_metadata P md"
proof -
  from md obtain tp v d i pl where steps:
    "decodeToothPath P m = Inr tp" "decodeVersion P m = Inr v"
    "decodeDependencies P m = Inr d" "decodeInformation m = Inr i" "decodePlacement m = Inr pl"
    and mdeq: "md = \<lparr>ToothPath = tp, Version = v, Dependencies = d, Information = i,
                   Placement = pl\<rparr>"
    unfolding fromMap_Inr by blast
  \<comment> \<open>the tooth path\<close>
  from steps(1) obtain tooth where tooth: "mapindex m ''tooth'' = JString tooth"
    and tp: "tp = strings_ToLower (unicode_ToLower P) tooth" and tpv: "IsValidToothPath P tp"
    unfolding decodeToothPath_Inr by blast
  have "valid_utf8 tooth"
    using mapindex_utf8 [OF m, of "''tooth''"] by (simp add: tooth del: valid_utf8.simps)
  from ToLower_fixed [OF P this]
  have t1: "valid_utf8 tp" and t2: "strings_ToLower (unicode_ToLower P) tp = tp"
    by (simp_all add: tp del: valid_utf8.simps)
  \<comment> \<open>the version\<close>
  from steps(2) have ver: "\<exists>s. version_NewFromString P s = Inr v"
    by (auto simp: decodeVersion_def split: json.splits sum.splits)
  \<comment> \<open>the dependencies\<close>
  from steps(3) obtain deps where deps: "mapindex m ''dependencies'' = JObject deps"
    and loop: "dependenciesLoop P deps Map.empty = Inr d"
    by (auto simp: decodeDependencies_def split: json.splits)
  have du: "list_all (\<lambda>(k, v). valid_utf8 k \<and> utf8_tree v) deps"
    using mapindex_utf8 [OF m, of "''dependencies''"] by (simp add: deps)
  have fin: "finite (dom d)"
    using dependenciesLoop_dom [OF loop] by simp
  have dv: "valid_utf8 k
      \<and> (\<forall>g\<in>set groups. \<forall>vm\<in>set g. \<exists>s. versionmatch_NewFromString P s = Inr vm)"
    if "d k = Some groups" for k groups
  proof (rule dependenciesLoop_parsed [OF loop _ _ that])
    fix k outer groups
    assume "(k, JArray outer) \<in> set deps" "outerLoop P outer = Inr groups"
    then show "valid_utf8 k
      \<and> (\<forall>g\<in>set groups. \<forall>vm\<in>set g. \<exists>s. versionmatch_NewFromString P s = Inr vm)"
      using du outerLoop_parsed [of P outer groups]
      by (auto simp: list_all_iff simp del: valid_utf8.simps)
  qed simp_all
  \<comment> \<open>the information\<close>
  from steps(4) have info:
    "informationField m ''name'' = Inr (Name i)"
    "informationField m ''description'' = Inr (Description i)"
    "informationField m ''author'' = Inr (Author i)"
    "informationField m ''license'' = Inr (License i)"
    "informationField m ''homepage'' = Inr (Homepage i)"
    by (auto simp: decodeInformation_def split: sum.splits)
  note iv = info [THEN informationField_utf8 [OF m]]
  \<comment> \<open>the placements\<close>
  from steps(5) obtain ps where ps: "mapindex m ''placement'' = JArray ps"
    and pl: "placementLoop ps = Inr pl"
    by (auto simp: decodePlacement_def split: json.splits)
  have "list_all utf8_tree ps"
    using mapindex_utf8 [OF m, of "''placement''"] by (simp add: ps)
  note pv = placementLoop_checked [OF pl this]
  show ?thesis
    unfolding valid_metadata_def mdeq
    using t1 t2 tpv ver fin dv iv pv
    by (simp del: valid_utf8.simps)
qed

subsection \<open>Encoding a valid Metadata and decoding the result\<close>

text \<open>The map that the encoder writes for a Metadata, its entries in the order of the keys.\<close>

definition sortedMap :: "('v, 'vm) packages \<Rightarrow> ('v, 'vm) Metadata \<Rightarrow> (string \<times> json) list" where
  "sortedMap P metadata =
     [(''dependencies'', JObject (dependenciesMap P (Dependencies metadata))),
      (''information'',
         JObject
           [(''author'', JString (Author (Information metadata))),
            (''description'', JString (Description (Information metadata))),
            (''homepage'', JString (Homepage (Information metadata))),
            (''license'', JString (License (Information metadata))),
            (''name'', JString (Name (Information metadata)))]),
      (''placement'',
         JArray (map (\<lambda>placement.
                        JObject [(''destination'', JString (Destination placement)),
                                 (''source'', JString (Source placement))])
                   (Placement metadata))),
      (''tooth'', JString (ToothPath metadata)),
      (''version'', JString (version_String P (Version metadata)))]"

abbreviation (input) groupsValue :: "('v, 'vm) packages \<Rightarrow> 'vm list list \<Rightarrow> json" where
  "groupsValue P groups \<equiv>
     JArray (map (\<lambda>g. JArray (map (\<lambda>vm. JString (versionmatch_String P vm)) g)) groups)"

lemma sortKeys_groups: "sortKeys (groupsValue P groups) = groupsValue P groups"
  by (simp add: comp_def)

lemma dependenciesMap_keys:
  "map fst (dependenciesMap P deps) = sorted_list_of_set (dom deps)"
  by (simp add: dependenciesMap_def comp_def)

lemma sortKeys_dependenciesMap:
  "sortKeys (JObject (dependenciesMap P deps)) = JObject (dependenciesMap P deps)"
proof -
  have vals: "map (\<lambda>(k, v). (k, sortKeys v)) (dependenciesMap P deps) = dependenciesMap P deps"
    by (simp add: dependenciesMap_def comp_def)
  have "sorted (map fst (dependenciesMap P deps))"
    by (simp add: dependenciesMap_keys)
  then have "sort_key fst (dependenciesMap P deps) = dependenciesMap P deps"
    by (rule sort_key_id_if_sorted)
  with vals show ?thesis by simp
qed

lemma sortKeys_toMap: "sortKeys (JObject (toMap P md)) = JObject (sortedMap P md)"
proof -
  have placements:
    "map (sortKeys \<circ> (\<lambda>placement.
            JObject [(''source'', JString (Source placement)),
                     (''destination'', JString (Destination placement))])) pl
     = map (\<lambda>placement.
            JObject [(''destination'', JString (Destination placement)),
                     (''source'', JString (Source placement))]) pl" for pl :: "PlacementStruct list"
    by (induction pl) simp_all
  show ?thesis
    unfolding toMap_def sortedMap_def
    using sortKeys_dependenciesMap [of P "Dependencies md"] placements [of "Placement md"]
    by (simp del: sortKeys.simps(2) add: sortKeys.simps(2) [of "[_, _, _, _, _]"])
qed

lemma foldr_max_le:
  "(\<And>x. x \<in> set xs \<Longrightarrow> f x \<le> (n :: nat)) \<Longrightarrow> foldr max (map f xs) 0 \<le> n"
  by (induction xs) auto

lemma depth_groups: "depth (groupsValue P groups) \<le> 2"
proof -
  have "foldr max (map (depth \<circ> (\<lambda>g. JArray (map (\<lambda>vm. JString (versionmatch_String P vm)) g)))
      groups) 0 \<le> 1"
  proof (rule foldr_max_le)
    fix g
    have "foldr max (map (depth \<circ> (\<lambda>vm. JString (versionmatch_String P vm))) g) 0 \<le> 0"
      by (rule foldr_max_le) simp
    then show "(depth \<circ> (\<lambda>g. JArray (map (\<lambda>vm. JString (versionmatch_String P vm)) g))) g \<le> 1"
      by simp
  qed
  then show ?thesis by simp
qed

lemma depth_sortedMap: "depth (JObject (sortedMap P md)) \<le> 10000"
proof -
  have deps: "depth (JObject (dependenciesMap P (Dependencies md))) \<le> 3"
  proof -
    have "foldr max (map (\<lambda>(k, v). depth v) (dependenciesMap P (Dependencies md))) 0 \<le> 2"
    proof (rule foldr_max_le)
      fix x assume "x \<in> set (dependenciesMap P (Dependencies md))"
      then obtain k where "x = (k, groupsValue P (the (Dependencies md k)))"
        by (auto simp: dependenciesMap_def)
      then show "(case x of (k, v) \<Rightarrow> depth v) \<le> 2"
        using depth_groups [of P "the (Dependencies md k)"] by simp
    qed
    then show ?thesis by simp
  qed
  have pl: "depth (JArray (map (\<lambda>placement.
                        JObject [(''destination'', JString (Destination placement)),
                                 (''source'', JString (Source placement))])
                   (Placement md))) \<le> 2"
  proof -
    have "foldr max (map (depth \<circ> (\<lambda>placement.
                        JObject [(''destination'', JString (Destination placement)),
                                 (''source'', JString (Source placement))]))
                   (Placement md)) 0 \<le> 1"
      by (rule foldr_max_le) simp
    then show ?thesis by simp
  qed
  have "depth (JObject (sortedMap P md)) \<le> 4"
    using deps pl unfolding sortedMap_def
    by (simp del: depth.simps(1) depth.simps(2)
        add: depth.simps(2) [of "[_, _, _, _, _]"] depth.simps(2) [of "[_, _, _, _, _, _]"])
  then show ?thesis by simp
qed

lemma wf_sortedMap:
  assumes "packages_ok P" and "valid_metadata P md"
  shows "wf_tree (JObject (sortedMap P md))"
proof -
  let ?deps = "Dependencies md"
  from assms(2) have fin: "finite (dom ?deps)"
    by (simp add: valid_metadata_def)
  have vm: "valid_utf8 (versionmatch_String P vm)"
    if "?deps k = Some groups" "g \<in> set groups" "vm \<in> set g" for k groups g vm
  proof -
    from assms(2) that obtain s where "versionmatch_NewFromString P s = Inr vm"
      unfolding valid_metadata_def by blast
    with assms(1) show ?thesis
      unfolding packages_ok_def by blast
  qed
  have key: "valid_utf8 k" if "?deps k = Some groups" for k groups
    using assms(2) that unfolding valid_metadata_def by blast
  have depsw: "wf_tree (JObject (dependenciesMap P ?deps))"
  proof -
    have "valid_utf8 k \<and> wf_tree v" if "(k, v) \<in> set (dependenciesMap P ?deps)" for k v
    proof -
      from that fin have k: "k \<in> dom ?deps" and v: "v = groupsValue P (the (?deps k))"
        by (auto simp: dependenciesMap_def)
      then obtain groups where g: "?deps k = Some groups" by auto
      show ?thesis
        using key [OF g] vm [OF g]
        by (simp add: v g list_all_iff del: valid_utf8.simps)
    qed
    moreover have "distinct (map fst (dependenciesMap P ?deps))"
      by (simp add: dependenciesMap_keys)
    ultimately show ?thesis
      by (auto simp: list_all_iff simp del: valid_utf8.simps)
  qed
  from assms(2) obtain s where "version_NewFromString P s = Inr (Version md)"
    unfolding valid_metadata_def by blast
  with assms(1) have ver: "valid_utf8 (version_String P (Version md))"
    unfolding packages_ok_def by blast
  have keys: "valid_utf8 ''dependencies''" "valid_utf8 ''information''" "valid_utf8 ''placement''"
    "valid_utf8 ''tooth''" "valid_utf8 ''version''" "valid_utf8 ''author''"
    "valid_utf8 ''description''" "valid_utf8 ''homepage''" "valid_utf8 ''license''"
    "valid_utf8 ''name''" "valid_utf8 ''destination''" "valid_utf8 ''source''"
    by (rule valid_utf8_ascii; simp)+
  show ?thesis
    using assms(2) depsw ver keys
    unfolding sortedMap_def valid_metadata_def
    by (simp add: list_all_iff del: valid_utf8.simps wf_tree.simps(3)
        add: wf_tree.simps(3) [of "[_, _, _, _, _]"] wf_tree.simps(3) [of "[_, _]"])
qed

lemma innerLoop_printed:
  assumes "\<And>vm. vm \<in> set g \<Longrightarrow>
     versionmatch_NewFromString P (versionmatch_String P vm) = Inr vm"
  shows "innerLoop P (map (\<lambda>vm. JString (versionmatch_String P vm)) g) = Inr g"
  using assms by (induction g) simp_all

lemma outerLoop_printed:
  assumes "\<And>g vm. g \<in> set groups \<Longrightarrow> vm \<in> set g \<Longrightarrow>
     versionmatch_NewFromString P (versionmatch_String P vm) = Inr vm"
  shows "outerLoop P (map (\<lambda>g. JArray (map (\<lambda>vm. JString (versionmatch_String P vm)) g)) groups)
           = Inr groups"
  using assms
proof (induction groups)
  case Nil
  then show ?case by simp
next
  case (Cons g gs)
  have "innerLoop P (map (\<lambda>vm. JString (versionmatch_String P vm)) g) = Inr g"
    by (rule innerLoop_printed) (rule Cons.prems, simp_all)
  moreover have "outerLoop P
      (map (\<lambda>g. JArray (map (\<lambda>vm. JString (versionmatch_String P vm)) g)) gs) = Inr gs"
    by (rule Cons.IH) (rule Cons.prems, simp_all)
  ultimately show ?case by simp
qed

lemma dependenciesLoop_printed:
  assumes "\<And>k. k \<in> set ks \<Longrightarrow>
     \<exists>groups. deps k = Some groups
       \<and> outerLoop P
           (map (\<lambda>g. JArray (map (\<lambda>vm. JString (versionmatch_String P vm)) g)) groups)
           = Inr groups"
  shows "dependenciesLoop P (map (\<lambda>k. (k, groupsValue P (the (deps k)))) ks) acc
           = Inr (\<lambda>k. if k \<in> set ks then deps k else acc k)"
  using assms
proof (induction ks arbitrary: acc)
  case Nil
  then show ?case by simp
next
  case (Cons k ks)
  from Cons.prems [of k] obtain groups where g: "deps k = Some groups"
    and o: "outerLoop P
           (map (\<lambda>g. JArray (map (\<lambda>vm. JString (versionmatch_String P vm)) g)) groups)
           = Inr groups"
    by auto
  have "dependenciesLoop P (map (\<lambda>k. (k, groupsValue P (the (deps k)))) (k # ks)) acc
      = dependenciesLoop P (map (\<lambda>k. (k, groupsValue P (the (deps k)))) ks) (acc(k \<mapsto> groups))"
    by (simp add: g o)
  also have "\<dots> = Inr (\<lambda>x. if x \<in> set ks then deps x else (acc(k \<mapsto> groups)) x)"
    by (rule Cons.IH) (simp add: Cons.prems)
  also have "(\<lambda>x. if x \<in> set ks then deps x else (acc(k \<mapsto> groups)) x)
      = (\<lambda>x. if x \<in> set (k # ks) then deps x else acc x)"
    by (auto simp: fun_eq_iff g)
  finally show ?case .
qed

lemma placementLoop_printed:
  assumes "\<And>p. p \<in> set pl \<Longrightarrow>
     reg_FindString (Source p) = Source p \<and> reg_FindString (Destination p) = Destination p"
  shows "placementLoop (map (\<lambda>placement.
                        JObject [(''destination'', JString (Destination placement)),
                                 (''source'', JString (Source placement))]) pl) = Inr pl"
  using assms by (induction pl) (simp_all add: mapindex_def)

text \<open>Decoding the map that the encoder writes for a valid Metadata gives the Metadata back.\<close>

lemma fromMap_sortedMap:
  assumes P: "packages_ok P" and md: "valid_metadata P md"
  shows "fromMap P (sortedMap P md) = Inr md"
proof -
  let ?m = "sortedMap P md"
  have tooth: "decodeToothPath P ?m = Inr (ToothPath md)"
    using md by (simp add: decodeToothPath_def sortedMap_def mapindex_def valid_metadata_def
        del: valid_utf8.simps)
  from md obtain s where "version_NewFromString P s = Inr (Version md)"
    unfolding valid_metadata_def by blast
  with P have "version_NewFromString P (version_String P (Version md)) = Inr (Version md)"
    unfolding packages_ok_def by blast
  then have version: "decodeVersion P ?m = Inr (Version md)"
    by (simp add: decodeVersion_def sortedMap_def mapindex_def)
  let ?deps = "Dependencies md"
  from md have fin: "finite (dom ?deps)" by (simp add: valid_metadata_def)
  have reparse: "versionmatch_NewFromString P (versionmatch_String P vm) = Inr vm"
    if "?deps k = Some groups" "g \<in> set groups" "vm \<in> set g" for k groups g vm
  proof -
    from md that obtain s where "versionmatch_NewFromString P s = Inr vm"
      unfolding valid_metadata_def by blast
    with P show ?thesis unfolding packages_ok_def by blast
  qed
  have "dependenciesLoop P (dependenciesMap P ?deps) Map.empty
      = Inr (\<lambda>k. if k \<in> set (sorted_list_of_set (dom ?deps)) then ?deps k else None)"
    unfolding dependenciesMap_def
  proof (rule dependenciesLoop_printed)
    fix k assume "k \<in> set (sorted_list_of_set (dom ?deps))"
    with fin obtain groups where g: "?deps k = Some groups" by auto
    have "outerLoop P
        (map (\<lambda>g. JArray (map (\<lambda>vm. JString (versionmatch_String P vm)) g)) groups) = Inr groups"
      by (rule outerLoop_printed) (rule reparse [OF g])
    with g show "\<exists>groups. ?deps k = Some groups
       \<and> outerLoop P
           (map (\<lambda>g. JArray (map (\<lambda>vm. JString (versionmatch_String P vm)) g)) groups)
           = Inr groups" by blast
  qed
  also have "(\<lambda>k. if k \<in> set (sorted_list_of_set (dom ?deps)) then ?deps k else None) = ?deps"
  proof (rule ext)
    fix k
    show "(if k \<in> set (sorted_list_of_set (dom ?deps)) then ?deps k else None) = ?deps k"
      using fin by (cases "?deps k") auto
  qed
  finally have deps: "decodeDependencies P ?m = Inr ?deps"
    by (simp add: decodeDependencies_def sortedMap_def mapindex_def)
  have info: "decodeInformation ?m = Inr (Information md)"
    by (simp add: decodeInformation_def informationField_def sortedMap_def mapindex_def)
  have "placementLoop (map (\<lambda>placement.
                        JObject [(''destination'', JString (Destination placement)),
                                 (''source'', JString (Source placement))]) (Placement md))
      = Inr (Placement md)"
    by (rule placementLoop_printed) (use md in \<open>simp add: valid_metadata_def\<close>)
  then have placement: "decodePlacement ?m = Inr (Placement md)"
    by (simp add: decodePlacement_def sortedMap_def mapindex_def)
  show ?thesis
    by (simp add: fromMap_def tooth version deps info placement)
qed

lemma supported_toMap: "supported (JObject (toMap P md))"
  by (simp add: toMap_def dependenciesMap_def list_all_iff)

text \<open>\<^verbatim>\<open>Metadata.JSON\<close> never takes its error branch: the tree it builds holds strings only.\<close>

lemma JSON_bytes: "JSON P md = Inr (render 0 (JObject (sortedMap P md)) @ [CHR 0x0A])"
  using supported_toMap [of P md] sortKeys_toMap [of P md]
  by (simp add: JSON_def json_Encode_def del: supported.simps sortKeys.simps render.simps)

lemma valid_metadata_roundtrip:
  assumes "packages_ok P" and "valid_metadata P md"
  shows "NewFromJSON P (render 0 (JObject (sortedMap P md)) @ [CHR 0x0A]) = Inr md"
proof -
  have "json_Unmarshal (render 0 (JObject (sortedMap P md)) @ [CHR 0x0A]) = Inr (sortedMap P md)"
    by (rule unmarshal_render [OF wf_sortedMap [OF assms] depth_sortedMap])
  then show ?thesis
    by (simp add: NewFromJSON_def fromMap_sortedMap [OF assms]
        del: render.simps)
qed

section \<open>Claims about decoding\<close>

text \<open>
  Claim C3, at an input the code accepts although the claim excludes it.  The claim: in every
  Metadata that \<^verbatim>\<open>NewFromJSON\<close> returns, every placement source and destination is non-empty,
  begins with an alphanumeric character and contains no whitespace.  The check of lines 95 and
  98 compares \<^verbatim>\<open>reg.FindString(source)\<close> with \<^verbatim>\<open>source\<close>; for the empty string the pattern does
  not match, \<^verbatim>\<open>FindString\<close> returns the empty string, and the two are equal.  So a manifest
  whose placement has an empty source and an empty destination decodes without error, while
  the sources \<^verbatim>\<open>"a b"\<close> and \<^verbatim>\<open>" assets"\<close> are rejected with an error that names them and
  \<^verbatim>\<open>"assets/file.txt"\<close> is accepted.
\<close>

theorem empty_placement_token_accepted:
  "NewFromJSON example_packages (doc_placement []) =
     Inr \<lparr>ToothPath = ''a/b'', Version = ''1.0.0'', Dependencies = Map.empty,
          Information = \<lparr>Name = ''n'', Description = ''d'', Author = ''a'', License = ''MIT'',
                          Homepage = ''h''\<rparr>,
          Placement = [\<lparr>Source = [], Destination = []\<rparr>]\<rparr>
   \<and> NewFromJSON example_packages (doc_placement ''a b'') =
       Inl (Error ''failed to decode JSON into metadata: invalid source: a b'')
   \<and> NewFromJSON example_packages (doc_placement '' assets'') =
       Inl (Error ''failed to decode JSON into metadata: invalid source:  assets'')
   \<and> (\<exists>md. NewFromJSON example_packages (doc_placement ''assets/file.txt'') = Inr md
          \<and> map Source (Placement md) = [''assets/file.txt''])"
  by (simp add: NewFromJSON_decoded [OF unmarshal_doc_placement_empty]
      NewFromJSON_decoded [OF unmarshal_doc_placement_space]
      NewFromJSON_decoded [OF unmarshal_doc_placement_leading]
      NewFromJSON_decoded [OF unmarshal_doc_placement_file]
      map_placement_def example_packages_def metadata_eval)

text \<open>
  Claim C4, as amended.  Let \<^verbatim>\<open>json.Unmarshal\<close> decode the document into a map whose
  \<^verbatim>\<open>information\<close> value is an object that lacks one of \<^verbatim>\<open>name\<close>, \<^verbatim>\<open>description\<close>, \<^verbatim>\<open>author\<close>,
  \<^verbatim>\<open>license\<close>, \<^verbatim>\<open>homepage\<close>.  Then \<^verbatim>\<open>NewFromJSON\<close> returns no Metadata, and no error on account of
  the missing field: the information step panics.  The call ends as the first of the steps
  tooth path, version, dependencies that fails does (in an error value or in a panic), and in a
  panic when these three succeed.  So an error value that comes back is the error of one of
  these three steps.  All this holds as well when the dependencies are enumerated in any other
  order (or are any other entries \<open>deps'\<close>).
\<close>

theorem missing_information_field:
  assumes "json_Unmarshal data = Inr m"
    and "mapindex m ''information'' = JObject info"
    and "k \<in> {''name'', ''description'', ''author'', ''license'', ''homepage''}"
    and "map_of info k = None"
  shows "decodeInformation m = Inl Panic
    \<and> NewFromJSON P data =
        (case decodeToothPath P m of Inl f \<Rightarrow> Inl f | Inr tp \<Rightarrow>
         case decodeVersion P m of Inl f \<Rightarrow> Inl f | Inr v \<Rightarrow>
         case decodeDependencies P m of Inl f \<Rightarrow> Inl f | Inr d \<Rightarrow> Inl Panic)
    \<and> (\<forall>md. NewFromJSON P data \<noteq> Inr md)
    \<and> (\<forall>tp v d. decodeToothPath P m = Inr tp \<longrightarrow> decodeVersion P m = Inr v
          \<longrightarrow> decodeDependencies P m = Inr d \<longrightarrow> NewFromJSON P data = Inl Panic)
    \<and> (\<forall>msg. NewFromJSON P data = Inl (Error msg) \<longrightarrow>
          decodeToothPath P m = Inl (Error msg) \<or> decodeVersion P m = Inl (Error msg)
          \<or> decodeDependencies P m = Inl (Error msg))
    \<and> (\<forall>deps'. fromMap P (mapassign ''dependencies'' (JObject deps') m) =
          (case decodeToothPath P m of Inl f \<Rightarrow> Inl f | Inr tp \<Rightarrow>
           case decodeVersion P m of Inl f \<Rightarrow> Inl f | Inr v \<Rightarrow>
           case dependenciesLoop P deps' Map.empty of Inl f \<Rightarrow> Inl f | Inr d \<Rightarrow> Inl Panic))"
proof -
  have info: "decodeInformation m = Inl Panic"
    using decodeInformation_needs_all [OF assms(3) informationField_absent [OF assms(2,4)]] .
  have run: "NewFromJSON P data = fromMap P m"
    by (rule NewFromJSON_decoded [OF assms(1)])
  have exact: "NewFromJSON P data =
        (case decodeToothPath P m of Inl f \<Rightarrow> Inl f | Inr tp \<Rightarrow>
         case decodeVersion P m of Inl f \<Rightarrow> Inl f | Inr v \<Rightarrow>
         case decodeDependencies P m of Inl f \<Rightarrow> Inl f | Inr d \<Rightarrow> Inl Panic)"
    unfolding run using info by (simp add: fromMap_def split: sum.splits)
  have never: "\<forall>md. NewFromJSON P data \<noteq> Inr md"
    unfolding run using info by (simp add: fromMap_Inr)
  have panics: "\<forall>tp v d. decodeToothPath P m = Inr tp \<longrightarrow> decodeVersion P m = Inr v
          \<longrightarrow> decodeDependencies P m = Inr d \<longrightarrow> NewFromJSON P data = Inl Panic"
    unfolding run using info by (simp add: fromMap_def)
  have errors: "\<forall>msg. NewFromJSON P data = Inl (Error msg) \<longrightarrow>
          decodeToothPath P m = Inl (Error msg) \<or> decodeVersion P m = Inl (Error msg)
          \<or> decodeDependencies P m = Inl (Error msg)"
    unfolding run using info by (auto simp: fromMap_def split: sum.splits)
  have other: "fromMap P (mapassign ''dependencies'' (JObject deps') m) =
          (case decodeToothPath P m of Inl f \<Rightarrow> Inl f | Inr tp \<Rightarrow>
           case decodeVersion P m of Inl f \<Rightarrow> Inl f | Inr v \<Rightarrow>
           case dependenciesLoop P deps' Map.empty of Inl f \<Rightarrow> Inl f | Inr d \<Rightarrow> Inl Panic)"
    for deps'
  proof -
    let ?m' = "mapassign ''dependencies'' (JObject deps') m"
    have s1: "decodeToothPath P ?m' = decodeToothPath P m"
      by (simp add: decodeToothPath_def mapindex_mapassign)
    have s2: "decodeVersion P ?m' = decodeVersion P m"
      by (simp add: decodeVersion_def mapindex_mapassign)
    have s3: "decodeDependencies P ?m' = dependenciesLoop P deps' Map.empty"
      by (simp add: decodeDependencies_def mapindex_mapassign)
    have "mapindex ?m' ''information'' = JObject info"
      using assms(2) by (simp add: mapindex_mapassign)
    then have s4: "decodeInformation ?m' = Inl Panic"
      using decodeInformation_needs_all [OF assms(3) informationField_absent [OF _ assms(4)]]
      by blast
    show ?thesis
      by (simp add: fromMap_def s1 s2 s3 s4 split: sum.splits)
  qed
  from info exact never panics errors other show ?thesis by blast
qed

theorem missing_information_field_witness:
  "json_Unmarshal doc_no_name = Inr map_no_name
   \<and> mapindex map_no_name ''information''
       = JObject [(''description'', JString ''d''), (''author'', JString ''a''),
                  (''license'', JString ''MIT''), (''homepage'', JString ''h'')]
   \<and> decodeInformation map_no_name = Inl Panic
   \<and> NewFromJSON example_packages doc_no_name = Inl Panic"
proof -
  have info: "mapindex map_no_name ''information''
       = JObject [(''description'', JString ''d''), (''author'', JString ''a''),
                  (''license'', JString ''MIT''), (''homepage'', JString ''h'')]"
    by (simp add: map_no_name_def mapindex_def)
  have absent: "map_of [(''description'', JString ''d''), (''author'', JString ''a''),
                  (''license'', JString ''MIT''), (''homepage'', JString ''h'')] ''name'' = None"
    by simp
  have key: "''name'' \<in> {''name'', ''description'', ''author'', ''license'', ''homepage''}"
    by simp
  note facts = missing_information_field [OF unmarshal_doc_no_name info key absent,
      of example_packages]
  from facts have step: "decodeInformation map_no_name = Inl Panic" by blast
  from facts have "NewFromJSON example_packages doc_no_name = Inl Panic"
    using example_steps_no_name by blast
  with unmarshal_doc_no_name info step show ?thesis by simp
qed

text \<open>
  The claim as stated (``returns a decode error'') fails: the document \<open>doc_no_name\<close> is
  well-formed, its information object has no \<^verbatim>\<open>name\<close>, and the call ends in a panic, not in a
  returned error.
\<close>

theorem missing_information_field_counterexample:
  "NewFromJSON example_packages doc_no_name = Inl Panic"
  by (simp add: NewFromJSON_decoded [OF unmarshal_doc_no_name] map_no_name_def
      example_packages_def metadata_eval)



text \<open>
  Claim C9.  \<^verbatim>\<open>NewFromJSON\<close> is not total over well-formed documents: whenever the top-level
  field \<^verbatim>\<open>tooth\<close> of a decoded document is absent or is not a string, the type assertion of line
  53 panics and no error value is returned; the documents \<^verbatim>\<open>{}\<close> (field absent) and
  \<^verbatim>\<open>{"tooth": true}\<close> (unexpected type) are such inputs, and so is \<open>doc_no_name\<close>, in which
  all top-level fields are present and a nested field is absent.
\<close>

theorem unchecked_type_assertion_panics:
  "(\<forall>data m. json_Unmarshal data = Inr m \<longrightarrow> (\<forall>s. mapindex m ''tooth'' \<noteq> JString s)
        \<longrightarrow> NewFromJSON P data = Inl Panic)
   \<and> json_Unmarshal ''{}'' = Inr []
   \<and> NewFromJSON P ''{}'' = Inl Panic
   \<and> json_Unmarshal ''{\"tooth\": true}'' = Inr [(''tooth'', JBool True)]
   \<and> NewFromJSON P ''{\"tooth\": true}'' = Inl Panic"
proof -
  have general: "\<forall>data m. json_Unmarshal data = Inr m
      \<longrightarrow> (\<forall>s. mapindex m ''tooth'' \<noteq> JString s) \<longrightarrow> NewFromJSON P data = Inl Panic"
    by (auto simp: NewFromJSON_def fromMap_def decodeToothPath_def split: json.splits)
  have e1: "json_Unmarshal ''{}'' = Inr []"
    by (simp add: json_eval)
  have e2: "json_Unmarshal ''{\"tooth\": true}'' = Inr [(''tooth'', JBool True)]"
    by (simp add: json_eval)
  have p1: "NewFromJSON P ''{}'' = Inl Panic"
    using general e1 by (simp add: mapindex_def)
  have p2: "NewFromJSON P ''{\"tooth\": true}'' = Inl Panic"
    using general e2 by (simp add: mapindex_def)
  from general e1 e2 p1 p2 show ?thesis by blast
qed

theorem unchecked_type_assertion_panics_witness:
  "json_Unmarshal ''{}'' = Inr [] \<and> NewFromJSON example_packages ''{}'' = Inl Panic"
  using unchecked_type_assertion_panics [of example_packages] by blast

text \<open>
  Claim C10.  The keys of the dependencies object are neither validated nor lower-cased.
  Let the document decode to a map whose \<^verbatim>\<open>dependencies\<close> value is an object \<open>deps\<close>, under any
  keys at all, in which every value is an array of arrays of strings that
  \<^verbatim>\<open>versionmatch.NewFromString\<close> accepts, and let the other four fields be valid (their steps
  succeed).  Then \<^verbatim>\<open>NewFromJSON\<close> succeeds; the keys of the \<open>Dependencies\<close> it returns are exactly
  the keys of \<open>deps\<close>, byte for byte; and under each key are the parsed matches of that key's
  value, group by group in the order of the document.  The same holds for any other object
  \<open>deps'\<close> with values among those of \<open>deps\<close>, whatever its keys and its order.
\<close>

theorem dependency_keys_verbatim:
  assumes "json_Unmarshal data = Inr m"
    and "mapindex m ''dependencies'' = JObject deps"
    and "\<forall>(k, v)\<in>set deps. \<exists>groups. v = JArray (map (\<lambda>g. JArray (map JString g)) groups)
           \<and> (\<forall>g\<in>set groups. \<forall>s\<in>set g. \<exists>vm. versionmatch_NewFromString P s = Inr vm)"
    and "decodeToothPath P m = Inr tp" and "decodeVersion P m = Inr ver"
    and "decodeInformation m = Inr i" and "decodePlacement m = Inr pl"
  shows "(\<exists>d. NewFromJSON P data
              = Inr \<lparr>ToothPath = tp, Version = ver, Dependencies = d, Information = i,
                     Placement = pl\<rparr>
          \<and> dom d = fst ` set deps
          \<and> (\<forall>k groups.
                map_of (rev deps) k = Some (JArray (map (\<lambda>g. JArray (map JString g)) groups))
                \<longrightarrow> (\<exists>gs. d k = Some gs
                       \<and> list_all2 (list_all2 (\<lambda>s vm. versionmatch_NewFromString P s = Inr vm))
                            groups gs)))
    \<and> (\<forall>deps'. snd ` set deps' \<subseteq> snd ` set deps \<longrightarrow>
          (\<exists>d'. fromMap P (mapassign ''dependencies'' (JObject deps') m)
                  = Inr \<lparr>ToothPath = tp, Version = ver, Dependencies = d', Information = i,
                         Placement = pl\<rparr>
              \<and> dom d' = fst ` set deps'))"
proof -
  let ?parsed = "list_all2 (list_all2 (\<lambda>s vm. versionmatch_NewFromString P s = Inr vm))"
  have accepted: "\<exists>outer gs. v = JArray outer \<and> outerLoop P outer = Inr gs"
    if "v \<in> snd ` set deps" for v
  proof -
    from that assms(3) obtain groups where
      "v = JArray (map (\<lambda>g. JArray (map JString g)) groups)"
      "\<forall>g\<in>set groups. \<forall>s\<in>set g. \<exists>vm. versionmatch_NewFromString P s = Inr vm"
      by fastforce
    with outerLoop_accepts [OF this(2)] show ?thesis by blast
  qed
  have here: "\<exists>d. NewFromJSON P data
              = Inr \<lparr>ToothPath = tp, Version = ver, Dependencies = d, Information = i,
                     Placement = pl\<rparr>
          \<and> dom d = fst ` set deps
          \<and> (\<forall>k groups.
                map_of (rev deps) k = Some (JArray (map (\<lambda>g. JArray (map JString g)) groups))
                \<longrightarrow> (\<exists>gs. d k = Some gs \<and> ?parsed groups gs))"
  proof -
    have "\<forall>(k, v)\<in>set deps. \<exists>outer gs. v = JArray outer \<and> outerLoop P outer = Inr gs"
      using accepted by force
    from dependenciesLoop_accepts [OF this, of Map.empty] obtain d where
      d: "dependenciesLoop P deps Map.empty = Inr d"
      and dom_d: "dom d = fst ` set deps"
      and stored: "\<And>k outer. map_of (rev deps) k = Some (JArray outer) \<Longrightarrow>
                  \<exists>gs. d k = Some gs \<and> outerLoop P outer = Inr gs"
      by auto
    have parsed: "\<exists>gs. d k = Some gs \<and> ?parsed groups gs"
      if look: "map_of (rev deps) k = Some (JArray (map (\<lambda>g. JArray (map JString g)) groups))"
      for k groups
    proof -
      from stored [OF look] obtain gs where
        gs: "d k = Some gs" "outerLoop P (map (\<lambda>g. JArray (map JString g)) groups) = Inr gs"
        by blast
      from look have "(k, JArray (map (\<lambda>g. JArray (map JString g)) groups)) \<in> set deps"
        using map_of_SomeD [OF look] by simp
      with assms(3) obtain groups' where
        same: "JArray (map (\<lambda>g. JArray (map JString g)) groups)
                 = JArray (map (\<lambda>g. JArray (map JString g)) groups')"
        and ok: "\<forall>g\<in>set groups'. \<forall>s\<in>set g. \<exists>vm. versionmatch_NewFromString P s = Inr vm"
        by fastforce
      have "inj (\<lambda>g. JArray (map JString g))"
        by (auto simp: inj_on_def dest: map_inj_on [where f = JString])
      with same have "groups = groups'"
        by (simp add: inj_map_eq_map)
      with outerLoop_accepts [OF ok] gs show ?thesis by auto
    qed
    have "decodeDependencies P m = Inr d"
      using assms(2) d by (simp add: decodeDependencies_def)
    then have "NewFromJSON P data
              = Inr \<lparr>ToothPath = tp, Version = ver, Dependencies = d, Information = i,
                     Placement = pl\<rparr>"
      using assms(1,4-7) by (simp add: NewFromJSON_decoded fromMap_def)
    with dom_d parsed show ?thesis by blast
  qed
  have elsewhere: "\<exists>d'. fromMap P (mapassign ''dependencies'' (JObject deps') m)
                  = Inr \<lparr>ToothPath = tp, Version = ver, Dependencies = d', Information = i,
                         Placement = pl\<rparr>
              \<and> dom d' = fst ` set deps'"
    if sub: "snd ` set deps' \<subseteq> snd ` set deps" for deps'
  proof -
    let ?m' = "mapassign ''dependencies'' (JObject deps') m"
    have "\<forall>(k, v)\<in>set deps'. \<exists>outer gs. v = JArray outer \<and> outerLoop P outer = Inr gs"
      using accepted sub by force
    from dependenciesLoop_accepts [OF this, of Map.empty] obtain d' where
      d': "dependenciesLoop P deps' Map.empty = Inr d'" and dom_d': "dom d' = fst ` set deps'"
      by auto
    have s1: "decodeToothPath P ?m' = Inr tp"
      using assms(4) by (simp add: decodeToothPath_def mapindex_mapassign)
    have s2: "decodeVersion P ?m' = Inr ver"
      using assms(5) by (simp add: decodeVersion_def mapindex_mapassign)
    have s3: "decodeDependencies P ?m' = Inr d'"
      using d' by (simp add: decodeDependencies_def mapindex_mapassign)
    have ieq: "\<And>k. informationField ?m' k = informationField m k"
      by (simp add: informationField_def mapindex_mapassign)
    have s4: "decodeInformation ?m' = Inr i"
      unfolding decodeInformation_def ieq using assms(6) unfolding decodeInformation_def .
    have s5: "decodePlacement ?m' = Inr pl"
      using assms(7) by (simp add: decodePlacement_def mapindex_mapassign)
    show ?thesis
      using s1 s2 s3 s4 s5 dom_d' by (simp add: fromMap_def)
  qed
  from here elsewhere show ?thesis by blast
qed

text \<open>
  The theorem at \<open>doc_two_deps\<close>, a document with two dependencies whose keys are no tooth
  paths: it decodes, and both keys are in the result as they are written.
\<close>

theorem dependency_keys_verbatim_witness:
  "json_Unmarshal doc_two_deps = Inr map_two_deps
   \<and> mapindex map_two_deps ''dependencies'' = JObject deps_two
   \<and> \<not> IsValidToothPath example_packages ''Dep/UPPER''
   \<and> \<not> IsValidToothPath example_packages ''not a path!''
   \<and> (\<exists>d. NewFromJSON example_packages doc_two_deps
             = Inr \<lparr>ToothPath = ''a/b'', Version = ''1.0.0'', Dependencies = d,
                    Information = \<lparr>Name = ''n'', Description = ''d'', Author = ''a'',
                                    License = ''MIT'', Homepage = ''h''\<rparr>,
                    Placement = []\<rparr>
          \<and> dom d = {''Dep/UPPER'', ''not a path!''}
          \<and> d ''Dep/UPPER'' = Some [[''>=1.0.0'', ''<2.0.0''], [''3.0.0'']]
          \<and> d ''not a path!'' = Some [[''1.2.3'']])"
proof -
  have deps: "mapindex map_two_deps ''dependencies'' = JObject deps_two"
    by (simp add: map_two_deps_def mapindex_def)
  have invalid: "\<not> IsValidToothPath example_packages ''Dep/UPPER''"
    "\<not> IsValidToothPath example_packages ''not a path!''"
    by (simp_all add: example_packages_def isDigit_def)
  have e1: "\<exists>groups.
      JArray [JArray [JString ''>=1.0.0'', JString ''<2.0.0''], JArray [JString ''3.0.0'']]
        = JArray (map (\<lambda>g. JArray (map JString g)) groups)
      \<and> (\<forall>g\<in>set groups. \<forall>s\<in>set g.
            \<exists>vm. versionmatch_NewFromString example_packages s = Inr vm)"
    by (rule exI [of _ "[[''>=1.0.0'', ''<2.0.0''], [''3.0.0'']]"])
      (simp add: example_packages_def isDigit_def)
  have e2: "\<exists>groups.
      JArray [JArray [JString ''1.2.3'']] = JArray (map (\<lambda>g. JArray (map JString g)) groups)
      \<and> (\<forall>g\<in>set groups. \<forall>s\<in>set g.
            \<exists>vm. versionmatch_NewFromString example_packages s = Inr vm)"
    by (rule exI [of _ "[[''1.2.3'']]"]) (simp add: example_packages_def isDigit_def)
  have vals: "\<forall>(k, v)\<in>set deps_two.
      \<exists>groups. v = JArray (map (\<lambda>g. JArray (map JString g)) groups)
        \<and> (\<forall>g\<in>set groups. \<forall>s\<in>set g.
              \<exists>vm. versionmatch_NewFromString example_packages s = Inr vm)"
    unfolding deps_two_def using e1 e2 by simp
  have "\<exists>d. NewFromJSON example_packages doc_two_deps
             = Inr \<lparr>ToothPath = ''a/b'', Version = ''1.0.0'', Dependencies = d,
                    Information = \<lparr>Name = ''n'', Description = ''d'', Author = ''a'',
                                    License = ''MIT'', Homepage = ''h''\<rparr>,
                    Placement = []\<rparr>
      \<and> dom d = fst ` set deps_two
      \<and> (\<forall>k groups.
            map_of (rev deps_two) k = Some (JArray (map (\<lambda>g. JArray (map JString g)) groups))
            \<longrightarrow> (\<exists>gs. d k = Some gs
                   \<and> list_all2
                        (list_all2 (\<lambda>s vm. versionmatch_NewFromString example_packages s = Inr vm))
                        groups gs))"
    by (rule conjunct1
        [OF dependency_keys_verbatim [OF unmarshal_doc_two_deps deps vals example_steps_two_deps]])
  then obtain d where all: "NewFromJSON example_packages doc_two_deps
             = Inr \<lparr>ToothPath = ''a/b'', Version = ''1.0.0'', Dependencies = d,
                    Information = \<lparr>Name = ''n'', Description = ''d'', Author = ''a'',
                                    License = ''MIT'', Homepage = ''h''\<rparr>,
                    Placement = []\<rparr>
      \<and> dom d = fst ` set deps_two
      \<and> (\<forall>k groups.
            map_of (rev deps_two) k = Some (JArray (map (\<lambda>g. JArray (map JString g)) groups))
            \<longrightarrow> (\<exists>gs. d k = Some gs
                   \<and> list_all2
                        (list_all2 (\<lambda>s vm. versionmatch_NewFromString example_packages s = Inr vm))
                        groups gs))" ..
  note run = all [THEN conjunct1]
  note dom_d = all [THEN conjunct2, THEN conjunct1]
  note stored = all [THEN conjunct2, THEN conjunct2, rule_format]
  have keys: "dom d = {''Dep/UPPER'', ''not a path!''}"
    using dom_d by (simp add: deps_two_def)
  have "map_of (rev deps_two) ''Dep/UPPER''
      = Some (JArray (map (\<lambda>g. JArray (map JString g)) [[''>=1.0.0'', ''<2.0.0''], [''3.0.0'']]))"
    by (simp add: deps_two_def)
  from stored [OF this] have first: "d ''Dep/UPPER'' = Some [[''>=1.0.0'', ''<2.0.0''], [''3.0.0'']]"
    by (auto simp: list_all2_Cons1 example_packages_def split: if_splits)
  have "map_of (rev deps_two) ''not a path!''
      = Some (JArray (map (\<lambda>g. JArray (map JString g)) [[''1.2.3'']]))"
    by (simp add: deps_two_def)
  from stored [OF this] have second: "d ''not a path!'' = Some [[''1.2.3'']]"
    by (auto simp: list_all2_Cons1 example_packages_def split: if_splits)
  have "\<exists>d. NewFromJSON example_packages doc_two_deps
             = Inr \<lparr>ToothPath = ''a/b'', Version = ''1.0.0'', Dependencies = d,
                    Information = \<lparr>Name = ''n'', Description = ''d'', Author = ''a'',
                                    License = ''MIT'', Homepage = ''h''\<rparr>,
                    Placement = []\<rparr>
          \<and> dom d = {''Dep/UPPER'', ''not a path!''}
          \<and> d ''Dep/UPPER'' = Some [[''>=1.0.0'', ''<2.0.0''], [''3.0.0'']]
          \<and> d ''not a path!'' = Some [[''1.2.3'']]"
    by (intro exI [of _ d] conjI run keys first second)
  then show ?thesis
    by (intro conjI unmarshal_doc_two_deps deps invalid)
qed

section \<open>Claims about the round trip and the encoding\<close>

lemma NewFromJSON_valid:
  assumes "packages_ok P" and "NewFromJSON P data = Inr md"
  shows "valid_metadata P md"
proof -
  from assms(2) obtain m where m: "json_Unmarshal data = Inr m" and md: "fromMap P m = Inr md"
    unfolding NewFromJSON_Inr by blast
  from decoded_valid [OF assms(1) unmarshal_utf8 [OF m] md] show ?thesis .
qed

lemma packages_ok_example: "packages_ok example_packages"
proof -
  have ascii: "valid_utf8 s" if "list_all (\<lambda>c. isDigit c \<or> c \<in> set ''.<>='') s" for s
  proof (rule valid_utf8_ascii)
    from that show "list_all (\<lambda>c. (of_char c :: nat) < 0x80) s"
      by (auto simp: list_all_iff isDigit_def)
  qed
  have ascii': "valid_utf8 s" if "list_all (\<lambda>c. isDigit c \<or> c = CHR ''.'') s" for s
  proof (rule valid_utf8_ascii)
    from that show "list_all (\<lambda>c. (of_char c :: nat) < 0x80) s"
      by (auto simp: list_all_iff isDigit_def)
  qed
  show ?thesis
    unfolding packages_ok_def
    by (auto simp: example_packages_def strings_ToLower_def ascii ascii'
        simp del: valid_utf8.simps split: if_splits)
qed

text \<open>
  Claim C1.  Under the hypothesis \<open>packages_ok\<close> on the functions that are parameters: for
  every Metadata that \<^verbatim>\<open>NewFromJSON\<close> returns for some document, and for every Metadata that
  has the properties the decoder establishes (\<open>valid_metadata\<close>), \<^verbatim>\<open>Metadata.JSON\<close> returns
  bytes, and \<^verbatim>\<open>NewFromJSON\<close> applied to these bytes returns the same Metadata: the same tooth
  path, version, information and placements, and the same dependencies, with the groups of
  each dependency and the matches of each group in the same order.
\<close>

theorem decode_encode_roundtrip:
  assumes "packages_ok P"
    and "(\<exists>data. NewFromJSON P data = Inr md) \<or> valid_metadata P md"
  shows "\<exists>bytes. JSON P md = Inr bytes \<and> NewFromJSON P bytes = Inr md"
proof -
  from assms have "valid_metadata P md"
    using NewFromJSON_valid [OF assms(1)] by blast
  from valid_metadata_roundtrip [OF assms(1) this] JSON_bytes [of P md] show ?thesis
    by blast
qed

theorem decode_encode_roundtrip_witness:
  "packages_ok example_packages
   \<and> NewFromJSON example_packages doc_ok = Inr metadata_ok
   \<and> Dependencies metadata_ok ''Dep/UPPER'' = Some [[''>=1.0.0'', ''<2.0.0''], [''3.0.0'']]
   \<and> (\<exists>bytes. JSON example_packages metadata_ok = Inr bytes
          \<and> NewFromJSON example_packages bytes = Inr metadata_ok)"
proof -
  have dec: "NewFromJSON example_packages doc_ok = Inr metadata_ok"
    by (simp add: NewFromJSON_decoded [OF unmarshal_doc_ok] fromMap_map_ok)
  then have "(\<exists>data. NewFromJSON example_packages data = Inr metadata_ok)
      \<or> valid_metadata example_packages metadata_ok"
    by (intro disjI1 exI)
  from decode_encode_roundtrip [OF packages_ok_example this]
  have again: "\<exists>bytes. JSON example_packages metadata_ok = Inr bytes
          \<and> NewFromJSON example_packages bytes = Inr metadata_ok" .
  have groups: "Dependencies metadata_ok ''Dep/UPPER''
      = Some [[''>=1.0.0'', ''<2.0.0''], [''3.0.0'']]"
    by (simp add: metadata_ok_def)
  show ?thesis
    by (intro conjI packages_ok_example dec groups again)
qed

text \<open>
  Claim C8, at an input where the code does not do what the claim and the comment of lines 150
  and 151 say.  The claim: \<^verbatim>\<open>Metadata.JSON\<close> never returns its error branch, its output is
  deterministic, indented by two spaces, and leaves \<^verbatim>\<open><\<close>, \<^verbatim>\<open>>\<close>, \<^verbatim>\<open>&\<close>, U+2028 and U+2029
  unescaped.  The document \<open>doc_separator\<close> decodes to a Metadata whose name is U+2028 and
  whose homepage is U+2029.  For it \<^verbatim>\<open>Metadata.JSON\<close> returns the text \<open>encoded_separator\<close>,
  without error and indented by two spaces, in which \<^verbatim>\<open><\<close>, \<^verbatim>\<open>>\<close> and \<^verbatim>\<open>&\<close> stand as they are,
  but the two separators are written as the six-character escapes \<^verbatim>\<open>\u2028\<close> and \<^verbatim>\<open>\u2029\<close>:
  \<^verbatim>\<open>SetEscapeHTML(false)\<close> does not switch off the escaping of these two code points.
\<close>

theorem line_separators_escaped:
  "NewFromJSON example_packages doc_separator = Inr metadata_separator
   \<and> JSON example_packages metadata_separator = Inr encoded_separator
   \<and> NewFromJSON example_packages encoded_separator = Inr metadata_separator"
proof -
  have dec: "NewFromJSON example_packages doc_separator = Inr metadata_separator"
    by (simp add: NewFromJSON_def doc_separator_def metadata_separator_def json_eval
        example_packages_def metadata_eval)
  have "render 0 (JObject (sortedMap example_packages metadata_separator)) @ [CHR 0x0A]
      = encoded_separator"
    by (simp add: sortedMap_def metadata_separator_def dependenciesMap_def example_packages_def
        encoded_separator_def appendString_def escape_ascii_def newline_def hex_digit_def
        rune_len_def utf8_need_def second_lo_def second_hi_def continuation_def char_of_eq_iff
        eval_nat_numeral)
  then have enc: "JSON example_packages metadata_separator = Inr encoded_separator"
    by (simp only: JSON_bytes)
  have "NewFromJSON example_packages encoded_separator = Inr metadata_separator"
    by (simp add: NewFromJSON_def encoded_separator_def metadata_separator_def json_eval
        example_packages_def metadata_eval)
  with dec enc show ?thesis by (intro conjI)
qed

section \<open>Claims about dependency constraints\<close>

lemma satisfiesGroup_iff: "satisfiesGroup M v g \<longleftrightarrow> (\<forall>m\<in>set g. M m v)"
  by (induction g) auto

lemma satisfiesEntry_iff:
  "satisfiesEntry M v entry \<longleftrightarrow> (\<exists>g\<in>set entry. satisfiesGroup M v g)"
  by (induction entry) auto

text \<open>
  Claim C2.  A candidate version satisfies a dependency entry iff it satisfies every match of
  at least one OR-group; an entry with an empty outer list is satisfied by no version; a group
  with an empty inner list is satisfied by every version (and so is any entry that contains
  such a group); a path that is absent from the constraint set is not satisfied.
\<close>

theorem satisfies_all_of_some_group:
  "(satisfiesEntry M v entry \<longleftrightarrow> (\<exists>g\<in>set entry. \<forall>m\<in>set g. M m v))
   \<and> \<not> satisfiesEntry M v []
   \<and> satisfiesGroup M v []
   \<and> ([] \<in> set entry \<longrightarrow> satisfiesEntry M v entry)
   \<and> (Satisfies M deps p v \<longleftrightarrow>
        (\<exists>e. deps p = Some e \<and> (\<exists>g\<in>set e. \<forall>m\<in>set g. M m v)))"
proof -
  have main: "\<And>e. satisfiesEntry M v e \<longleftrightarrow> (\<exists>g\<in>set e. \<forall>m\<in>set g. M m v)"
    by (simp add: satisfiesEntry_iff satisfiesGroup_iff)
  have empty_group: "[] \<in> set entry \<longrightarrow> satisfiesEntry M v entry"
    unfolding main by force
  have sat: "Satisfies M deps p v \<longleftrightarrow>
      (\<exists>e. deps p = Some e \<and> (\<exists>g\<in>set e. \<forall>m\<in>set g. M m v))"
    by (cases "deps p") (simp_all add: Satisfies_def main)
  show ?thesis
    using main [of entry] empty_group sat by simp
qed

text \<open>The spec's example: with \<^verbatim>\<open>{"pkgA": [[">=1.0.0","<2.0.0"], ["3.0.0"]]}\<close>, version 1.5.0
  satisfies (first group), 2.5.0 does not, 3.0.0 satisfies (second group).\<close>

theorem satisfies_all_of_some_group_witness:
  "Satisfies example_Matches
      [''pkgA'' \<mapsto> [[AtLeast (1, 0, 0), Below (2, 0, 0)], [Exactly (3, 0, 0)]]] ''pkgA'' (1, 5, 0)
   \<and> \<not> Satisfies example_Matches
      [''pkgA'' \<mapsto> [[AtLeast (1, 0, 0), Below (2, 0, 0)], [Exactly (3, 0, 0)]]] ''pkgA'' (2, 5, 0)
   \<and> Satisfies example_Matches
      [''pkgA'' \<mapsto> [[AtLeast (1, 0, 0), Below (2, 0, 0)], [Exactly (3, 0, 0)]]] ''pkgA'' (3, 0, 0)
   \<and> \<not> Satisfies example_Matches [''pkgA'' \<mapsto> []] ''pkgA'' (1, 5, 0)
   \<and> Satisfies example_Matches [''pkgA'' \<mapsto> [[]]] ''pkgA'' (1, 5, 0)"
  using satisfies_all_of_some_group
    [of example_Matches "(1, 5, 0)" "[[AtLeast (1, 0, 0), Below (2, 0, 0)], [Exactly (3, 0, 0)]]"
      "[''pkgA'' \<mapsto> [[AtLeast (1, 0, 0), Below (2, 0, 0)], [Exactly (3, 0, 0)]]]" "''pkgA''"]
  by (simp add: Satisfies_def)


end
